theory Spec2Isabelle
  imports Complex_Main "HOL-Library.Multiset"
begin

section \<open>The reactor core of the event socket server\<close>

text \<open>
  The theory embeds \<^verbatim>\<open>event_socket_server/base_server.py\<close>: the job scheduler
  (\<^verbatim>\<open>schedule\<close>, \<^verbatim>\<open>unschedule\<close>, \<^verbatim>\<open>_dispatch_event\<close>), the output queues
  (\<^verbatim>\<open>send\<close>, \<^verbatim>\<open>_nonblock_write\<close>) and the connection life cycle
  (\<^verbatim>\<open>_accept\<close>, \<^verbatim>\<open>_nonblock_read\<close>, \<^verbatim>\<open>_clean_up_client\<close>).

  Mutation is explicit state passing on the record \<open>server\<close>. Every function that can raise
  returns the exception next to the state it leaves behind. What the environment decides
  (the clock, the result of a socket call, what an application callback does) is an argument.
  Times are rationals: the rounding of Python's floats is not modelled. Exceptions are the
  ones derived from \<^verbatim>\<open>Exception\<close>.
\<close>

subsection \<open>Data\<close>

datatype exn =
    TypeError | IndexError | KeyError | AttributeError | SocketError | AppError nat

type_synonym bytes = string

text \<open>A client object: its identity and the descriptor of \<^verbatim>\<open>client._socket\<close>, which
  \<^verbatim>\<open>client.fileno()\<close> returns.\<close>

record client =
  ident :: nat
  fileno :: nat

text \<open>
  An application callback (a job's \<^verbatim>\<open>func\<close> with its arguments, a completion callback,
  \<^verbatim>\<open>_recv_data\<close>, \<^verbatim>\<open>on_close\<close>, the client constructor) is the list of calls it makes
  to the server's public operations, followed by the exception it raises, if any. A call of
  \<^verbatim>\<open>schedule\<close> carries the clock reading \<^verbatim>\<open>time.time()\<close> it will see.
\<close>

datatype callable = Callable (steps: "op list") (raises: "exn option")
and op =
    Schedule rat rat callable
  | Unschedule nat
  | Send client bytes "callable option"
  | Stop

record SendMessage =
  data :: bytes
  callback :: "callable option"

record ScheduledJob =
  time :: rat
  func :: callable
  cancel :: bool
  dispatched :: bool

text \<open>The effects on the outside world and the calls into application code, in the order
  they happen.\<close>

datatype event =
    EvAccept nat nat
  | EvSetBlocking nat
  | EvRecv nat
  | EvRecvData client bytes
  | EvSockSend nat bytes nat
  | EvWriteCallback nat
  | EvPopleft nat
  | EvOnClose client
  | EvSockClose nat
  | EvLog string
  | EvJob nat rat
  | EvUnschedule nat bool

text \<open>
  \<open>job_objs\<close> is the store of the \<^verbatim>\<open>ScheduledJob\<close> objects created so far; a job handle and
  an entry of \<open>job_queue\<close> are addresses into it, so that the flag \<^verbatim>\<open>unschedule\<close> sets through
  a handle is the flag \<^verbatim>\<open>_dispatch_event\<close> reads through the heap. \<open>send_queue\<close> is the
  \<^verbatim>\<open>defaultdict(deque)\<close>.
\<close>

record server =
  clients :: "client set"
  ClientClass :: "nat \<Rightarrow> client \<times> callable"
  send_queue :: "nat \<rightharpoonup> SendMessage list"
  job_objs :: "ScheduledJob list"
  job_queue :: "nat list"
  stop_flag :: bool
  writers :: "client set"
  trace :: "event list"

definition init_server :: "(nat \<Rightarrow> client \<times> callable) \<Rightarrow> server" where
  "init_server cc =
     \<lparr>clients = {}, ClientClass = cc, send_queue = Map.empty, job_objs = [], job_queue = [],
      stop_flag = False, writers = {}, trace = []\<rparr>"

definition emit :: "event list \<Rightarrow> server \<Rightarrow> server" where
  "emit es s = s\<lparr>trace := trace s @ es\<rparr>"

subsection \<open>Comparing two jobs\<close>

text \<open>
  \<^verbatim>\<open>ScheduledJob\<close> defines no comparison, so \<^verbatim>\<open>heapq\<close> compares two jobs the way the
  interpreter compares two plain objects: Python 3 raises \<^verbatim>\<open>TypeError\<close>, Python 2 compares
  their memory addresses. Both are covered: the order is a parameter of the scheduler.
\<close>

datatype object_order = Unorderable | ByAddress "nat \<Rightarrow> nat"

fun job_lt :: "object_order \<Rightarrow> nat \<Rightarrow> nat \<Rightarrow> exn + bool" where
  "job_lt Unorderable a b = Inl TypeError"
| "job_lt (ByAddress addr) a b = Inr (addr a < addr b)"

subsection \<open>The library's heap operations\<close>

text \<open>\<^verbatim>\<open>heapq._siftdown\<close>, \<^verbatim>\<open>heapq._siftup\<close>, \<^verbatim>\<open>heappush\<close> and \<^verbatim>\<open>heappop\<close> on a
  list of job addresses, with the list as it stands when a comparison raises.\<close>

function siftdown_loop ::
  "object_order \<Rightarrow> nat list \<Rightarrow> nat \<Rightarrow> nat \<Rightarrow> nat \<Rightarrow> exn option \<times> nat list" where
  "siftdown_loop c heap newitem startpos pos =
     (if pos > startpos then
        (let parentpos = (pos - 1) div 2; parent = heap ! parentpos in
         case job_lt c newitem parent of
           Inl e \<Rightarrow> (Some e, heap)
         | Inr True \<Rightarrow> siftdown_loop c (heap[pos := parent]) newitem startpos parentpos
         | Inr False \<Rightarrow> (None, heap[pos := newitem]))
      else (None, heap[pos := newitem]))"
  by pat_completeness auto

termination
  by (relation "measure (\<lambda>(c, heap, newitem, startpos, pos). pos)") auto

definition siftdown :: "object_order \<Rightarrow> nat list \<Rightarrow> nat \<Rightarrow> nat \<Rightarrow> exn option \<times> nat list" where
  "siftdown c heap startpos pos = siftdown_loop c heap (heap ! pos) startpos pos"

function siftup_loop ::
  "object_order \<Rightarrow> nat list \<Rightarrow> nat \<Rightarrow> nat \<Rightarrow> nat \<Rightarrow> exn option \<times> nat list" where
  "siftup_loop c heap newitem startpos pos =
     (let endpos = length heap; childpos = 2 * pos + 1 in
      if childpos < endpos then
        (let rightpos = childpos + 1 in
         case (if rightpos < endpos
               then job_lt c (heap ! childpos) (heap ! rightpos)
               else Inr True) of
           Inl e \<Rightarrow> (Some e, heap)
         | Inr lt \<Rightarrow>
             (let childpos = (if lt then childpos else rightpos) in
              siftup_loop c (heap[pos := heap ! childpos]) newitem startpos childpos))
      else siftdown c (heap[pos := newitem]) startpos pos)"
  by pat_completeness auto

termination
  by (relation "measure (\<lambda>(c, heap, newitem, startpos, pos). length heap - pos)") auto

definition siftup :: "object_order \<Rightarrow> nat list \<Rightarrow> nat \<Rightarrow> exn option \<times> nat list" where
  "siftup c heap pos = siftup_loop c heap (heap ! pos) pos pos"

definition heappush :: "object_order \<Rightarrow> nat list \<Rightarrow> nat \<Rightarrow> exn option \<times> nat list" where
  "heappush c heap item = siftdown c (heap @ [item]) 0 (length heap)"

definition heappop :: "object_order \<Rightarrow> nat list \<Rightarrow> (exn + nat) \<times> nat list" where
  "heappop c heap =
     (if heap = [] then (Inl IndexError, heap)
      else
        (let lastelt = last heap; heap1 = butlast heap in
         if heap1 \<noteq> [] then
           (let returnitem = heap1 ! 0 in
            case siftup c (heap1[0 := lastelt]) 0 of
              (Some e, heap2) \<Rightarrow> (Inl e, heap2)
            | (None, heap2) \<Rightarrow> (Inr returnitem, heap2))
         else (Inr lastelt, heap1)))"

declare siftdown_loop.simps [simp del] siftup_loop.simps [simp del]

subsection \<open>The scheduler\<close>

text \<open>\<^verbatim>\<open>schedule(delay, func, *args, **kwargs)\<close>: \<open>now\<close> is the value of \<^verbatim>\<open>time.time()\<close>;
  the new object gets the next free address; \<^verbatim>\<open>heappush\<close> has appended the job when its
  comparison raises. The lock makes the body one atomic step.

  The fire time is written as the exact sum. The interpreter adds two floats and stores the
  rounded sum; the scheduler only ever reads the stored \<^verbatim>\<open>time\<close> field, and the model
  depends on \<open>now\<close> and \<open>delay\<close> through their sum alone (lemma \<open>schedule_sum_only\<close>), so the
  call that stores the float \<open>x\<close> is the model's call with the clock reading \<open>x\<close> and the
  delay 0. No statement below relates the stored time to the two summands.\<close>

definition schedule ::
  "object_order \<Rightarrow> rat \<Rightarrow> rat \<Rightarrow> callable \<Rightarrow> server \<Rightarrow> (exn + nat) \<times> server" where
  "schedule c now delay f s =
     (let job = length (job_objs s);
          s1 = s\<lparr>job_objs := job_objs s @
                 [\<lparr>time = now + delay, func = f, cancel = False, dispatched = False\<rparr>]\<rparr>
      in case heappush c (job_queue s1) job of
           (Some e, q) \<Rightarrow> (Inl e, s1\<lparr>job_queue := q\<rparr>)
         | (None, q) \<Rightarrow> (Inr job, s1\<lparr>job_queue := q\<rparr>))"

text \<open>\<^verbatim>\<open>unschedule(job)\<close>. An argument that is no job object has no attribute
  \<^verbatim>\<open>dispatched\<close>.\<close>

definition unschedule :: "nat \<Rightarrow> server \<Rightarrow> (exn + bool) \<times> server" where
  "unschedule job s =
     (if job < length (job_objs s) then
        (let j = job_objs s ! job in
         if dispatched j \<or> cancel j then (Inr False, emit [EvUnschedule job False] s)
         else (Inr True,
               emit [EvUnschedule job True]
                 (s\<lparr>job_objs := (job_objs s)[job := j\<lparr>cancel := True\<rparr>]\<rparr>)))
      else (Inl AttributeError, s))"

subsection \<open>Output queues\<close>

text \<open>Modelled from the spec: the backend's \<^verbatim>\<open>_register_write\<close> and \<^verbatim>\<open>_register_read\<close>
  (the base class only raises \<^verbatim>\<open>NotImplementedError\<close>). A connection registered for
  write-readiness has interest READ+WRITE; \<^verbatim>\<open>_register_read\<close> demotes it to READ only.\<close>

definition register_write :: "client \<Rightarrow> server \<Rightarrow> server" where
  "register_write cl s = s\<lparr>writers := insert cl (writers s)\<rparr>"

definition register_read :: "client \<Rightarrow> server \<Rightarrow> server" where
  "register_read cl s = s\<lparr>writers := writers s - {cl}\<rparr>"

text \<open>\<^verbatim>\<open>self._send_queue[fd]\<close>: the lookup of a \<^verbatim>\<open>defaultdict(deque)\<close> stores an empty
  deque under a missing key.\<close>

definition lookup_queue :: "nat \<Rightarrow> server \<Rightarrow> SendMessage list \<times> server" where
  "lookup_queue fd s =
     (case send_queue s fd of
        None \<Rightarrow> ([], s\<lparr>send_queue := (send_queue s)(fd \<mapsto> [])\<rparr>)
      | Some queue \<Rightarrow> (queue, s))"

definition send :: "client \<Rightarrow> bytes \<Rightarrow> callable option \<Rightarrow> server \<Rightarrow> server" where
  "send cl d cb s =
     (case lookup_queue (fileno cl) s of
        (queue, s1) \<Rightarrow>
          register_write cl
            (s1\<lparr>send_queue := (send_queue s1)(fileno cl \<mapsto> queue @ [\<lparr>data = d, callback = cb\<rparr>])\<rparr>))"

definition stop :: "server \<Rightarrow> server" where
  "stop s = s\<lparr>stop_flag := True\<rparr>"

subsection \<open>Running application code\<close>

fun exec_op :: "object_order \<Rightarrow> op \<Rightarrow> server \<Rightarrow> exn option \<times> server" where
  "exec_op c (Schedule now delay f) s =
     (case schedule c now delay f s of (Inl e, s') \<Rightarrow> (Some e, s') | (Inr job, s') \<Rightarrow> (None, s'))"
| "exec_op c (Unschedule job) s =
     (case unschedule job s of (Inl e, s') \<Rightarrow> (Some e, s') | (Inr b, s') \<Rightarrow> (None, s'))"
| "exec_op c (Send cl d cb) s = (None, send cl d cb s)"
| "exec_op c Stop s = (None, stop s)"

fun run_steps :: "object_order \<Rightarrow> op list \<Rightarrow> server \<Rightarrow> exn option \<times> server" where
  "run_steps c [] s = (None, s)"
| "run_steps c (x # xs) s =
     (case exec_op c x s of
        (Some e, s') \<Rightarrow> (Some e, s')
      | (None, s') \<Rightarrow> run_steps c xs s')"

definition call :: "object_order \<Rightarrow> callable \<Rightarrow> server \<Rightarrow> exn option \<times> server" where
  "call c f s =
     (case run_steps c (steps f) s of
        (Some e, s') \<Rightarrow> (Some e, s')
      | (None, s') \<Rightarrow> (raises f, s'))"

subsection \<open>The per-wake dispatch\<close>

text \<open>The loop of \<^verbatim>\<open>_dispatch_event\<close> under the lock: \<open>t\<close> is \<^verbatim>\<open>time.time()\<close>, the result
  is the exception of \<^verbatim>\<open>heappop\<close> if it raised, \<^verbatim>\<open>dt\<close>, \<^verbatim>\<open>tasks\<close> and the state.\<close>

function drain ::
  "object_order \<Rightarrow> rat \<Rightarrow> server \<Rightarrow> nat list \<Rightarrow> exn option \<times> rat \<times> nat list \<times> server" where
  "drain c t s tasks =
     (let dt = (case job_queue s of [] \<Rightarrow> 1 | a # q \<Rightarrow> time (job_objs s ! a) - t) in
      if dt > 0 then (None, dt, tasks, s)
      else
        (case heappop c (job_queue s) of
           (Inl e, q) \<Rightarrow> (Some e, dt, tasks, s\<lparr>job_queue := q\<rparr>)
         | (Inr task, q) \<Rightarrow>
             (let s1 = s\<lparr>job_queue := q,
                        job_objs := (job_objs s)[task := (job_objs s ! task)\<lparr>dispatched := True\<rparr>]\<rparr>
              in drain c t s1 (if \<not> cancel (job_objs s1 ! task) then tasks @ [task] else tasks))))"
  by pat_completeness auto

text \<open>\<^verbatim>\<open>for task in tasks: task.func(*task.args, **task.kwargs)\<close>, outside the lock and
  outside any \<^verbatim>\<open>try\<close>.\<close>

fun run_tasks :: "object_order \<Rightarrow> rat \<Rightarrow> nat list \<Rightarrow> server \<Rightarrow> exn option \<times> server" where
  "run_tasks c t [] s = (None, s)"
| "run_tasks c t (task # tasks) s =
     (case call c (func (job_objs s ! task)) (emit [EvJob task t] s) of
        (Some e, s') \<Rightarrow> (Some e, s')
      | (None, s') \<Rightarrow> run_tasks c t tasks s')"

definition dispatch_event :: "object_order \<Rightarrow> rat \<Rightarrow> server \<Rightarrow> (exn + rat) \<times> server" where
  "dispatch_event c t s =
     (case drain c t s [] of
        (Some e, dt, tasks, s1) \<Rightarrow> (Inl e, s1)
      | (None, dt, tasks, s1) \<Rightarrow>
          (case run_tasks c t tasks s1 of
             (Some e, s2) \<Rightarrow> (Inl e, s2)
           | (None, s2) \<Rightarrow> (Inr (if job_queue s2 = [] \<or> dt > 1 then 1 else dt), s2)))"

subsection \<open>Connections\<close>

text \<open>\<^verbatim>\<open>_clean_up_client(client, finalize)\<close>; \<open>oc\<close> is what \<^verbatim>\<open>client.on_close()\<close> does.
  A missing queue entry is the swallowed \<^verbatim>\<open>KeyError\<close>; \<^verbatim>\<open>set.remove\<close> of a client
  that is not in the set raises.\<close>

definition clean_up_client ::
  "object_order \<Rightarrow> client \<Rightarrow> bool \<Rightarrow> callable \<Rightarrow> server \<Rightarrow> exn option \<times> server" where
  "clean_up_client c cl finalize oc s =
     (let s1 = s\<lparr>send_queue := (send_queue s)(fileno cl := None)\<rparr> in
      case call c oc (emit [EvOnClose cl] s1) of
        (Some e, s2) \<Rightarrow> (Some e, s2)
      | (None, s2) \<Rightarrow>
          (let s3 = emit [EvSockClose (fileno cl)] s2 in
           if \<not> finalize then
             (if cl \<in> clients s3 then (None, s3\<lparr>clients := clients s3 - {cl}\<rparr>)
              else (Some KeyError, s3))
           else (None, s3)))"

text \<open>\<^verbatim>\<open>_accept()\<close>; \<open>acc\<close> is the outcome of \<^verbatim>\<open>self._server.accept()\<close>, a connection and
  its address or an exception. The factory yields the client object and what its constructor
  does with the server it is given.\<close>

definition accept ::
  "object_order \<Rightarrow> exn + nat \<times> nat \<Rightarrow> server \<Rightarrow> (exn + client) \<times> server" where
  "accept c acc s =
     (case acc of
        Inl e \<Rightarrow> (Inl e, s)
      | Inr (conn, address) \<Rightarrow>
          (case ClientClass s conn of
             (cl, init) \<Rightarrow>
               (case call c init (emit [EvAccept conn address, EvSetBlocking conn] s) of
                  (Some e, s1) \<Rightarrow> (Inl e, s1)
                | (None, s1) \<Rightarrow> (Inr cl, s1\<lparr>clients := insert cl (clients s1)\<rparr>))))"

text \<open>\<^verbatim>\<open>_nonblock_read(client)\<close>; \<open>rcv\<close> is the outcome of
  \<^verbatim>\<open>client._socket.recv(1024)\<close>, \<open>h\<close> is what \<^verbatim>\<open>client._recv_data(data)\<close> does.\<close>

definition nonblock_read ::
  "object_order \<Rightarrow> client \<Rightarrow> exn + bytes \<Rightarrow> callable \<Rightarrow> callable \<Rightarrow> server
     \<Rightarrow> exn option \<times> server" where
  "nonblock_read c cl rcv h oc s =
     (let s0 = emit [EvRecv (fileno cl)] s in
      case rcv of
        Inl e \<Rightarrow> (if e = SocketError then clean_up_client c cl False oc s0 else (Some e, s0))
      | Inr d \<Rightarrow>
          (if d = [] then clean_up_client c cl False oc s0
           else
             (case call c h (emit [EvRecvData cl d] s0) of
                (Some e, s1) \<Rightarrow>
                  clean_up_client c cl False oc (emit [EvLog ''Client recv_data failure''] s1)
              | (None, s1) \<Rightarrow> (None, s1))))"

text \<open>The end of the \<^verbatim>\<open>try\<close> block of \<^verbatim>\<open>_nonblock_write\<close>: \<^verbatim>\<open>queue.popleft()\<close>, then
  the demotion and the release of the entry when the deque is empty. \<^verbatim>\<open>queue\<close> is the
  deque stored in the mapping, so it is read there, after the callback.\<close>

definition write_done :: "client \<Rightarrow> server \<Rightarrow> exn option \<times> server" where
  "write_done cl s =
     (case send_queue s (fileno cl) of
        Some (front # queue) \<Rightarrow>
          (let s1 = emit [EvPopleft (fileno cl)]
                      (s\<lparr>send_queue := (send_queue s)(fileno cl \<mapsto> queue)\<rparr>) in
           if queue = [] then
             (let s2 = register_read cl s1 in
              (None, s2\<lparr>send_queue := (send_queue s2)(fileno cl := None)\<rparr>))
           else (None, s1))
      | _ \<Rightarrow> (Some IndexError, s))"

text \<open>The body of the \<^verbatim>\<open>try\<close> block once \<^verbatim>\<open>top = queue[0]\<close> is read (\<open>front\<close> here); \<open>sent\<close> is the
  outcome of \<^verbatim>\<open>client._socket.send(top.data)\<close>, the number of bytes taken or an exception.\<close>

definition write_top ::
  "object_order \<Rightarrow> client \<Rightarrow> exn + nat \<Rightarrow> callable \<Rightarrow> SendMessage \<Rightarrow> SendMessage list
     \<Rightarrow> server \<Rightarrow> exn option \<times> server" where
  "write_top c cl sent oc front rest s =
     (case sent of
        Inl e \<Rightarrow> (Some e, s)
      | Inr cb \<Rightarrow>
          (let front' = front\<lparr>data := drop cb (data front)\<rparr>;
               s1 = emit [EvSockSend (fileno cl) (data front) cb]
                      (s\<lparr>send_queue := (send_queue s)(fileno cl \<mapsto> front' # rest)\<rparr>) in
           if data front' = [] then
             (case callback front' of
                None \<Rightarrow> write_done cl s1
              | Some f \<Rightarrow>
                  (case call c f (emit [EvWriteCallback (fileno cl)] s1) of
                     (Some e, s2) \<Rightarrow>
                       clean_up_client c cl False oc
                         (emit [EvLog ''Client write callback failure''] s2)
                   | (None, s2) \<Rightarrow> write_done cl s2))
           else (None, s1)))"

text \<open>\<^verbatim>\<open>_nonblock_write(client)\<close>: \<^verbatim>\<open>except socket.error\<close> guards the whole body, the
  handler of the callback's exception included.\<close>

definition nonblock_write ::
  "object_order \<Rightarrow> client \<Rightarrow> exn + nat \<Rightarrow> callable \<Rightarrow> server \<Rightarrow> exn option \<times> server" where
  "nonblock_write c cl sent oc s =
     (case lookup_queue (fileno cl) s of
        (queue, s0) \<Rightarrow>
          (case queue of
             [] \<Rightarrow> (Some IndexError, s0)
           | front # rest \<Rightarrow>
               (case write_top c cl sent oc front rest s0 of
                  (Some e, s1) \<Rightarrow>
                    (if e = SocketError then clean_up_client c cl False oc s1 else (Some e, s1))
                | (None, s1) \<Rightarrow> (None, s1))))"

subsection \<open>Executions\<close>

text \<open>One step of the reactor or of a thread that uses the server: a public operation, a
  tick at a clock reading, or a readiness event with what the environment answers. A run
  goes on after a step that raised, from the state the step left.\<close>

datatype cmd =
    Api op
  | Tick rat
  | AcceptReady "exn + nat \<times> nat"
  | ReadReady client "exn + bytes" callable callable
  | WriteReady client "exn + nat" callable
  | CleanUp client bool callable

fun step :: "object_order \<Rightarrow> cmd \<Rightarrow> server \<Rightarrow> server" where
  "step c (Api x) s = snd (exec_op c x s)"
| "step c (Tick t) s = snd (dispatch_event c t s)"
| "step c (AcceptReady acc) s = snd (accept c acc s)"
| "step c (ReadReady cl rcv h oc) s = snd (nonblock_read c cl rcv h oc s)"
| "step c (WriteReady cl sent oc) s = snd (nonblock_write c cl sent oc s)"
| "step c (CleanUp cl finalize oc) s = snd (clean_up_client c cl finalize oc s)"

definition exec :: "object_order \<Rightarrow> cmd list \<Rightarrow> server \<Rightarrow> server" where
  "exec c cmds s = fold (step c) cmds s"

text \<open>The jobs invoked so far, each with the clock reading of the tick that invoked it.\<close>

fun fired :: "event list \<Rightarrow> (nat \<times> rat) list" where
  "fired [] = []"
| "fired (EvJob a t # es) = (a, t) # fired es"
| "fired (e # es) = fired es"

section \<open>Notions used in the statements\<close>

text \<open>The jobs for which \<^verbatim>\<open>unschedule\<close> has returned \<^verbatim>\<open>True\<close>.\<close>

fun granted :: "event list \<Rightarrow> nat list" where
  "granted [] = []"
| "granted (EvUnschedule a True # es) = a # granted es"
| "granted (e # es) = granted es"

text \<open>The state of the job objects only moves forward: an object is never removed, its
  time and action never change, a flag once set stays set, and a dispatched job is not
  cancelled afterwards.\<close>

definition job_stable :: "server \<Rightarrow> server \<Rightarrow> bool" where
  "job_stable s s' \<longleftrightarrow>
     length (job_objs s) \<le> length (job_objs s') \<and>
     (\<forall>a < length (job_objs s).
        time (job_objs s' ! a) = time (job_objs s ! a) \<and>
        func (job_objs s' ! a) = func (job_objs s ! a) \<and>
        (dispatched (job_objs s ! a) \<longrightarrow> dispatched (job_objs s' ! a)) \<and>
        (cancel (job_objs s ! a) \<longrightarrow> cancel (job_objs s' ! a)) \<and>
        (dispatched (job_objs s ! a) \<longrightarrow> cancel (job_objs s' ! a) = cancel (job_objs s ! a)))"

text \<open>The invariant of the scheduler: the heap holds each job once and holds no
  dispatched job; no job was invoked twice, and an invoked job is dispatched, not cancelled
  and was due at the tick that invoked it; no job was granted a cancellation twice, and a
  job that was granted one is cancelled.\<close>

definition sched_inv :: "server \<Rightarrow> bool" where
  "sched_inv s \<longleftrightarrow>
     distinct (job_queue s) \<and>
     (\<forall>a \<in> set (job_queue s). a < length (job_objs s) \<and> \<not> dispatched (job_objs s ! a)) \<and>
     distinct (map fst (fired (trace s))) \<and>
     (\<forall>(a, t) \<in> set (fired (trace s)).
        a < length (job_objs s) \<and> dispatched (job_objs s ! a) \<and>
        \<not> cancel (job_objs s ! a) \<and> time (job_objs s ! a) \<le> t) \<and>
     distinct (granted (trace s)) \<and>
     (\<forall>a \<in> set (granted (trace s)). a < length (job_objs s) \<and> cancel (job_objs s ! a))"

text \<open>A step that invokes no job and pops nothing: it keeps the invariant, and the heap
  afterwards holds at most the jobs it held and new ones.\<close>

definition quiet :: "server \<Rightarrow> server \<Rightarrow> bool" where
  "quiet s s' \<longleftrightarrow>
     job_stable s s' \<and> (sched_inv s \<longrightarrow> sched_inv s') \<and>
     fired (trace s') = fired (trace s) \<and>
     length (job_queue s) \<le> length (job_queue s') \<and>
     (\<forall>a < length (job_objs s). dispatched (job_objs s' ! a) = dispatched (job_objs s ! a)) \<and>
     (\<forall>a \<in> set (job_queue s'). a \<in> set (job_queue s) \<or> length (job_objs s) \<le> a)"

text \<open>The events application code can add: the results of its \<^verbatim>\<open>unschedule\<close> calls.\<close>

fun is_unschedule :: "event \<Rightarrow> bool" where
  "is_unschedule (EvUnschedule a b) = True"
| "is_unschedule e = False"

text \<open>Application code reaches the connections through \<^verbatim>\<open>send\<close> only: it closes
  nothing, it appends to queues, and the only events it adds are the results of its
  \<^verbatim>\<open>unschedule\<close> calls.\<close>

definition app_frame :: "server \<Rightarrow> server \<Rightarrow> bool" where
  "app_frame s s' \<longleftrightarrow>
     clients s' = clients s \<and> ClientClass s' = ClientClass s \<and> writers s \<subseteq> writers s' \<and>
     (\<forall>fd q. send_queue s fd = Some q \<longrightarrow> (\<exists>q'. send_queue s' fd = Some (q @ q'))) \<and>
     (\<exists>es. trace s' = trace s @ es \<and> list_all is_unschedule es)"

text \<open>The jobs the loop has collected and not yet invoked.\<close>

definition tasks_ok :: "rat \<Rightarrow> server \<Rightarrow> nat list \<Rightarrow> bool" where
  "tasks_ok t s tasks \<longleftrightarrow>
     distinct tasks \<and>
     (\<forall>a \<in> set tasks. a < length (job_objs s) \<and> dispatched (job_objs s ! a) \<and>
        \<not> cancel (job_objs s ! a) \<and> time (job_objs s ! a) \<le> t \<and>
        a \<notin> fst ` set (fired (trace s)))"

text \<open>A factory whose clients carry the descriptor of the connection, a callback that does
  nothing and one that raises, for the concrete runs.\<close>

definition plain_factory :: "nat \<Rightarrow> client \<times> callable" where
  "plain_factory conn = (\<lparr>ident = conn, fileno = conn\<rparr>, Callable [] None)"

definition noop :: callable where
  "noop = Callable [] None"

definition failing :: callable where
  "failing = Callable [] (Some (AppError 7))"


text \<open>Modelled from the spec: the interest state of a connection, which the backend keeps.
  It is READ+WRITE while the connection is registered for write-readiness and READ
  otherwise.\<close>

datatype interest = READ | READ_WRITE

definition interest_state :: "server \<Rightarrow> client \<Rightarrow> interest" where
  "interest_state s cl = (if cl \<in> writers s then READ_WRITE else READ)"

text \<open>Whether a call of application code is a \<^verbatim>\<open>send\<close> to the client \<open>cl\<close>.\<close>

fun sends_to :: "client \<Rightarrow> op \<Rightarrow> bool" where
  "sends_to cl (Send cl' d cb) = (cl' = cl)"
| "sends_to cl x = False"


text \<open>The bytes the transport has taken from the messages of one descriptor: of each
  \<^verbatim>\<open>send\<close> on the socket, the prefix whose length the call returned.\<close>

fun delivered :: "nat \<Rightarrow> event list \<Rightarrow> bytes" where
  "delivered fd [] = []"
| "delivered fd (EvSockSend fd' d n # es) =
     (if fd' = fd then take n d @ delivered fd es else delivered fd es)"
| "delivered fd (e # es) = delivered fd es"


text \<open>The bytes still queued for a descriptor.\<close>

definition pending :: "nat \<Rightarrow> server \<Rightarrow> bytes" where
  "pending fd s = (case send_queue s fd of None \<Rightarrow> [] | Some queue \<Rightarrow> concat (map data queue))"

text \<open>What is left to do on the queue of a descriptor: the bytes still queued and the
  messages still to dequeue.\<close>

definition backlog :: "nat \<Rightarrow> server \<Rightarrow> nat" where
  "backlog fd s =
     (case send_queue s fd of None \<Rightarrow> 0
      | Some queue \<Rightarrow> length (concat (map data queue)) + length queue)"

text \<open>No message queued for the descriptor has a completion callback.\<close>

definition plain_queue :: "nat \<Rightarrow> server \<Rightarrow> bool" where
  "plain_queue fd s =
     (case send_queue s fd of None \<Rightarrow> True | Some queue \<Rightarrow> list_all (\<lambda>m. callback m = None) queue)"


section \<open>The dispatch loop terminates\<close>

lemma length_siftdown_loop [simp]:
  "length (snd (siftdown_loop c heap newitem startpos pos)) = length heap"
proof (induction c heap newitem startpos pos rule: siftdown_loop.induct)
  case (1 c heap newitem startpos pos)
  show ?case
    by (subst siftdown_loop.simps) (use 1 in \<open>auto simp: Let_def split: sum.splits bool.splits\<close>)
qed

lemma length_siftdown [simp]: "length (snd (siftdown c heap startpos pos)) = length heap"
  by (simp add: siftdown_def)

lemma length_siftup_loop [simp]:
  "length (snd (siftup_loop c heap newitem startpos pos)) = length heap"
proof (induction c heap newitem startpos pos rule: siftup_loop.induct)
  case (1 c heap newitem startpos pos)
  show ?case
    by (subst siftup_loop.simps) (use 1 in \<open>auto simp: Let_def split: sum.splits if_splits\<close>)
qed

lemma length_siftup [simp]: "length (snd (siftup c heap pos)) = length heap"
  by (simp add: siftup_def)

lemma length_heappop:
  assumes "heap \<noteq> []"
  shows "length (snd (heappop c heap)) = length heap - 1"
proof (cases "butlast heap = []")
  case True
  then have "length (butlast heap) = 0" by simp
  then have "length heap \<le> 1" by (simp only: length_butlast)
  with True show ?thesis
    using assms by (simp add: heappop_def)
next
  case False
  let ?h = "(butlast heap)[0 := last heap]"
  obtain r h2 where sp: "siftup c ?h 0 = (r, h2)"
    by (cases "siftup c ?h 0") auto
  have "length h2 = length ?h"
    using length_siftup [of c ?h 0] sp by simp
  then show ?thesis
    using assms sp False by (cases r) (auto simp: heappop_def Let_def)
qed

termination drain
  apply (relation "measure (\<lambda>(c, t, s, tasks). length (job_queue s))")
   apply simp
  apply (auto split: list.splits)
  subgoal for c t s y b x xs
    using length_heappop [of "x # xs" c] by (cases "heappop c (x # xs)") auto
  done

declare drain.simps [simp del]

section \<open>The heap operations keep the content of the queue\<close>

lemma mset_move_update:
  assumes "i < length xs" and "j < length xs"
  shows "mset (xs[i := xs ! j, j := x]) = mset (xs[i := x])"
proof (cases "i = j")
  case True
  then show ?thesis by simp
next
  case False
  then have "xs[i := xs ! j] ! j = xs ! j" by simp
  then show ?thesis
    using assms False by (simp add: mset_update)
qed

lemma siftdown_loop_by_address:
  assumes "pos < length heap"
    and "siftdown_loop (ByAddress f) heap x sp pos = (r, h')"
  shows "r = None \<and> mset h' = mset (heap[pos := x])"
  using assms
proof (induction "ByAddress f" heap x sp pos arbitrary: r h' rule: siftdown_loop.induct)
  case (1 heap newitem startpos pos)
  show ?case
  proof (cases "pos > startpos \<and> f newitem < f (heap ! ((pos - 1) div 2))")
    case True
    then have pp: "(pos - 1) div 2 < length heap" using "1.prems"(1) by arith
    have run: "siftdown_loop (ByAddress f) (heap[pos := heap ! ((pos - 1) div 2)]) newitem startpos
                 ((pos - 1) div 2) = (r, h')"
      using "1.prems"(2) True by (subst (asm) siftdown_loop.simps) (simp add: Let_def)
    have "r = None \<and> mset h' = mset (heap[pos := heap ! ((pos - 1) div 2), (pos - 1) div 2 := newitem])"
      using "1.hyps" [OF _ refl refl _ _ _ run] True pp by simp
    then show ?thesis
      using mset_move_update [OF "1.prems"(1) pp] by simp
  next
    case False
    then show ?thesis
      using "1.prems"(2)
      by (subst (asm) siftdown_loop.simps) (auto simp: Let_def split: if_splits)
  qed
qed

lemma siftdown_loop_unorderable:
  "siftdown_loop Unorderable heap x sp pos =
     (if pos > sp then (Some TypeError, heap) else (None, heap[pos := x]))"
  by (subst siftdown_loop.simps) simp

lemma siftup_loop_by_address:
  assumes "pos < length heap"
    and "siftup_loop (ByAddress f) heap x sp pos = (r, h')"
  shows "r = None \<and> mset h' = mset (heap[pos := x])"
  using assms
proof (induction "ByAddress f" heap x sp pos arbitrary: r h' rule: siftup_loop.induct)
  case (1 heap newitem startpos pos)
  show ?case
  proof (cases "2 * pos + 1 < length heap")
    case True
    define b where "b = (if 2 * pos + 1 + 1 < length heap
                         then f (heap ! (2 * pos + 1)) < f (heap ! (2 * pos + 1 + 1)) else True)"
    define cp where "cp = (if b then 2 * pos + 1 else 2 * pos + 1 + 1)"
    have cp: "cp < length heap" using True by (auto simp: cp_def b_def split: if_splits)
    have run: "siftup_loop (ByAddress f) (heap[pos := heap ! cp]) newitem startpos cp = (r, h')"
      using "1.prems"(2) True
      by (subst (asm) siftup_loop.simps) (auto simp: Let_def cp_def b_def split: if_splits)
    have lt: "(if 2 * pos + 1 + 1 < length heap
               then job_lt (ByAddress f) (heap ! (2 * pos + 1)) (heap ! (2 * pos + 1 + 1))
               else Inr True) = Inr b"
      by (simp add: b_def)
    have "r = None \<and> mset h' = mset (heap[pos := heap ! cp, cp := newitem])"
      using "1.hyps" [OF refl refl True refl lt cp_def _ run] cp by simp
    then show ?thesis
      using mset_move_update [OF "1.prems"(1) cp] by simp
  next
    case False
    then have "siftdown_loop (ByAddress f) (heap[pos := newitem]) newitem startpos pos = (r, h')"
      using "1.prems"
      by (subst (asm) siftup_loop.simps) (simp add: Let_def siftdown_def)
    then show ?thesis
      using siftdown_loop_by_address [of pos "heap[pos := newitem]" f newitem startpos r h']
        "1.prems"(1) by simp
  qed
qed

lemma heappush_unorderable:
  "heappush Unorderable heap item =
     (if heap = [] then None else Some TypeError, heap @ [item])"
  by (simp add: heappush_def siftdown_def siftdown_loop_unorderable)

lemma mset_heappush: "mset (snd (heappush c heap item)) = add_mset item (mset heap)"
proof (cases c)
  case Unorderable
  then show ?thesis by (simp add: heappush_unorderable)
next
  case (ByAddress f)
  obtain r h' where run: "siftdown_loop (ByAddress f) (heap @ [item]) item 0 (length heap) = (r, h')"
    by (cases "siftdown_loop (ByAddress f) (heap @ [item]) item 0 (length heap)") auto
  from siftdown_loop_by_address [OF _ run] have "mset h' = mset (heap @ [item])" by simp
  with run ByAddress show ?thesis by (simp add: heappush_def siftdown_def)
qed

lemma heappush_by_address: "fst (heappush (ByAddress f) heap item) = None"
proof -
  obtain r h' where run: "siftdown_loop (ByAddress f) (heap @ [item]) item 0 (length heap) = (r, h')"
    by (cases "siftdown_loop (ByAddress f) (heap @ [item]) item 0 (length heap)") auto
  from siftdown_loop_by_address [OF _ run] have "r = None" by simp
  with run show ?thesis by (simp add: heappush_def siftdown_def)
qed

lemma mset_siftup:
  assumes "heap \<noteq> []"
  shows "mset (snd (siftup c heap 0)) = mset heap"
proof (cases c)
  case (ByAddress f)
  obtain r h' where run: "siftup_loop (ByAddress f) heap (heap ! 0) 0 0 = (r, h')"
    by (cases "siftup_loop (ByAddress f) heap (heap ! 0) 0 0") auto
  from siftup_loop_by_address [OF _ run] assms have "mset h' = mset heap" by simp
  with run ByAddress show ?thesis by (simp add: siftup_def)
next
  case Unorderable
  consider a where "heap = [a]" | a b where "heap = [a, b]" | a b d rest where "heap = a # b # d # rest"
    using assms by (cases heap rule: list.exhaust; auto) (metis list.exhaust)
  then show ?thesis
  proof cases
    case 1
    then show ?thesis
      using Unorderable
      by (simp add: siftup_def siftdown_def siftup_loop.simps siftdown_loop_unorderable)
  next
    case 2
    then show ?thesis
      using Unorderable
      by (simp add: siftup_def siftdown_def siftup_loop.simps siftdown_loop_unorderable)
  next
    case 3
    then show ?thesis
      using Unorderable
      by (simp add: siftup_def siftup_loop.simps)
  qed
qed

lemma heappop_result:
  assumes "heap \<noteq> []" and "heappop c heap = (r, h')"
  shows "add_mset (hd heap) (mset h') = mset heap \<and> (r = Inr (hd heap) \<or> (\<exists>e. r = Inl e))"
proof -
  obtain a as where heap: "heap = a # as" using assms(1) by (cases heap) auto
  show ?thesis
  proof (cases "as = []")
    case True
    with heap assms(2) show ?thesis by (simp add: heappop_def)
  next
    case False
    let ?h = "last as # butlast as"
    have ms: "mset ?h = mset as"
    proof -
      have "mset (butlast as @ [last as]) = mset as" using False by simp
      then show ?thesis by simp
    qed
    obtain x h2 where sp: "siftup c ?h 0 = (x, h2)" by (cases "siftup c ?h 0") auto
    have "mset h2 = mset ?h" using mset_siftup [of ?h c] sp by simp
    with ms have m2: "mset h2 = mset as" by simp
    have "heappop c heap = (case x of Some e \<Rightarrow> (Inl e, h2) | None \<Rightarrow> (Inr a, h2))"
      using False heap sp by (simp add: heappop_def Let_def split: option.splits)
    with assms(2) heap m2 show ?thesis by (cases x) auto
  qed
qed

lemma write_on_drained_queue:
  assumes "send_queue s (fileno cl) = None \<or> send_queue s (fileno cl) = Some []"
  shows "snd (nonblock_write c cl sent oc s) = s\<lparr>send_queue := (send_queue s)(fileno cl \<mapsto> [])\<rparr>"
proof -
  from assms show ?thesis
  proof
    assume "send_queue s (fileno cl) = None"
    then show ?thesis by (simp add: nonblock_write_def lookup_queue_def)
  next
    assume a: "send_queue s (fileno cl) = Some []"
    then have "(send_queue s)(fileno cl \<mapsto> []) = send_queue s" by (simp add: fun_upd_idem)
    with a show ?thesis by (simp add: nonblock_write_def lookup_queue_def)
  qed
qed

section \<open>A write-readiness event without pending output\<close>

text \<open>
  Claim C10. When the connection has no pending output, its entry in the queue mapping
  missing or its deque empty, \<^verbatim>\<open>_nonblock_write\<close> raises \<^verbatim>\<open>IndexError\<close>, which
  \<^verbatim>\<open>except socket.error\<close> does not catch: no teardown runs and the exception leaves the
  entry point. The lookup in the \<^verbatim>\<open>defaultdict\<close> has stored an empty deque under the
  descriptor by then, so a connection that was absent from the mapping is present in it
  afterwards, with an empty queue.
\<close>

theorem write_without_pending_output:
  assumes "send_queue s (fileno cl) = None \<or> send_queue s (fileno cl) = Some []"
  shows "nonblock_write c cl sent oc s =
           (Some IndexError, s\<lparr>send_queue := (send_queue s)(fileno cl \<mapsto> [])\<rparr>)"
proof (cases "send_queue s (fileno cl)")
  case None
  then show ?thesis by (simp add: nonblock_write_def lookup_queue_def)
next
  case (Some queue)
  with assms have empty: "queue = []" by simp
  then have "(send_queue s)(fileno cl \<mapsto> []) = send_queue s"
    using Some by (simp add: fun_upd_idem)
  with Some empty show ?thesis by (simp add: nonblock_write_def lookup_queue_def)
qed

theorem write_without_pending_output_witness:
  "send_queue (init_server (\<lambda>conn. (\<lparr>ident = conn, fileno = conn\<rparr>, Callable [] None))) 3 = None
   \<and> fst (nonblock_write Unorderable \<lparr>ident = 0, fileno = 3\<rparr> (Inr 0) (Callable [] None)
        (init_server (\<lambda>conn. (\<lparr>ident = conn, fileno = conn\<rparr>, Callable [] None)))) = Some IndexError
   \<and> send_queue (snd (nonblock_write Unorderable \<lparr>ident = 0, fileno = 3\<rparr> (Inr 0) (Callable [] None)
        (init_server (\<lambda>conn. (\<lparr>ident = conn, fileno = conn\<rparr>, Callable [] None))))) 3 = Some []"
  using write_without_pending_output
    [of "init_server (\<lambda>conn. (\<lparr>ident = conn, fileno = conn\<rparr>, Callable [] None))"
        "\<lparr>ident = 0, fileno = 3\<rparr>" Unorderable "Inr 0" "Callable [] None"]
  by (simp add: init_server_def)

section \<open>What every operation keeps of the scheduler\<close>

lemma fired_append [simp]: "fired (xs @ ys) = fired xs @ fired ys"
  by (induction xs rule: fired.induct) auto

lemma granted_append [simp]: "granted (xs @ ys) = granted xs @ granted ys"
  by (induction xs rule: granted.induct) auto

lemma job_stable_refl [simp]: "job_stable s s"
  by (simp add: job_stable_def)

lemma job_stable_trans: "job_stable s s' \<Longrightarrow> job_stable s' s'' \<Longrightarrow> job_stable s s''"
  unfolding job_stable_def by (auto; metis less_le_trans)

lemma quiet_refl [simp]: "quiet s s"
  by (simp add: quiet_def)

lemma quiet_trans: "quiet s s' \<Longrightarrow> quiet s' s'' \<Longrightarrow> quiet s s''"
  unfolding quiet_def using job_stable_trans [of s s' s'']
  by (auto simp: job_stable_def)

lemma quiet_same:
  "job_objs s' = job_objs s \<Longrightarrow> job_queue s' = job_queue s \<Longrightarrow> trace s' = trace s \<Longrightarrow> quiet s s'"
  by (simp add: quiet_def job_stable_def sched_inv_def)

lemma quiet_emit: "fired es = [] \<Longrightarrow> granted es = [] \<Longrightarrow> quiet s (emit es s)"
  by (simp add: quiet_def job_stable_def sched_inv_def emit_def)

lemma schedule_state:
  assumes "schedule c now delay f s = (r, s')"
  shows "\<exists>q. s' = s\<lparr>job_objs := job_objs s @
                     [\<lparr>time = now + delay, func = f, cancel = False, dispatched = False\<rparr>],
                   job_queue := q\<rparr>
             \<and> mset q = add_mset (length (job_objs s)) (mset (job_queue s))
             \<and> (r = Inr (length (job_objs s)) \<or> (\<exists>e. r = Inl e))"
proof -
  obtain x q where hp: "heappush c (job_queue s) (length (job_objs s)) = (x, q)"
    by (cases "heappush c (job_queue s) (length (job_objs s))") auto
  have "mset q = add_mset (length (job_objs s)) (mset (job_queue s))"
    using mset_heappush [of c "job_queue s" "length (job_objs s)"] hp by simp
  then show ?thesis
    using assms hp by (cases x) (auto simp: schedule_def Let_def)
qed

lemma schedule_sum_only: "schedule c now delay f s = schedule c (now + delay) 0 f s"
  by (simp add: schedule_def)

lemma quiet_schedule:
  assumes "schedule c now delay f s = (r, s')"
  shows "quiet s s'"
proof -
  let ?n = "length (job_objs s)"
  from schedule_state [OF assms] obtain q where
    s': "s' = s\<lparr>job_objs := job_objs s @
                  [\<lparr>time = now + delay, func = f, cancel = False, dispatched = False\<rparr>],
                job_queue := q\<rparr>"
    and q: "mset q = add_mset ?n (mset (job_queue s))"
    by blast
  have stable: "job_stable s s'"
    by (simp add: s' job_stable_def nth_append)
  have len: "length (job_queue s) \<le> length q"
    using q by (metis le_add2 mset_eq_length length_Cons mset.simps(2) plus_1_eq_Suc)
  have inv: "sched_inv s'" if inv: "sched_inv s"
  proof -
    have fresh: "?n \<notin> set (job_queue s)" using inv by (auto simp: sched_inv_def)
    have "mset q = mset (?n # job_queue s)" using q by simp
    then have "distinct q = distinct (?n # job_queue s)" and "set q = set (?n # job_queue s)"
      by (rule mset_eq_imp_distinct_iff, rule mset_eq_setD)
    then have "distinct q" and sq: "set q = insert ?n (set (job_queue s))"
      using fresh inv by (auto simp: sched_inv_def)
    then show ?thesis
      using inv unfolding sched_inv_def s'
      by (auto simp: nth_append)
  qed
  have "mset q = mset (?n # job_queue s)" using q by simp
  then have "set q = set (?n # job_queue s)" by (rule mset_eq_setD)
  then have sub: "\<forall>a \<in> set q. a \<in> set (job_queue s) \<or> ?n \<le> a" by auto
  show ?thesis
    unfolding quiet_def using stable len inv sub by (auto simp: s' nth_append)
qed

lemma unschedule_state:
  assumes "unschedule job s = (r, s')"
  shows "(job < length (job_objs s) \<and> \<not> dispatched (job_objs s ! job) \<and> \<not> cancel (job_objs s ! job)
            \<and> r = Inr True
            \<and> s' = emit [EvUnschedule job True]
                     (s\<lparr>job_objs := (job_objs s)[job := (job_objs s ! job)\<lparr>cancel := True\<rparr>]\<rparr>))
         \<or> (job < length (job_objs s) \<and> (dispatched (job_objs s ! job) \<or> cancel (job_objs s ! job))
            \<and> r = Inr False \<and> s' = emit [EvUnschedule job False] s)
         \<or> (\<not> job < length (job_objs s) \<and> r = Inl AttributeError \<and> s' = s)"
  using assms by (auto simp: unschedule_def Let_def split: if_splits)

lemma quiet_unschedule:
  assumes "unschedule job s = (r, s')"
  shows "quiet s s'"
proof -
  consider
    (grant) "job < length (job_objs s)" "\<not> dispatched (job_objs s ! job)"
      "\<not> cancel (job_objs s ! job)"
      "s' = emit [EvUnschedule job True]
              (s\<lparr>job_objs := (job_objs s)[job := (job_objs s ! job)\<lparr>cancel := True\<rparr>]\<rparr>)"
    | (refuse) "s' = emit [EvUnschedule job False] s"
    | (bad) "s' = s"
    using unschedule_state [OF assms] by blast
  then show ?thesis
  proof cases
    case a: grant
    note s' = a(4)
    have stable: "job_stable s s'"
      using a by (auto simp: s' job_stable_def emit_def nth_list_update)
    have inv: "sched_inv s'" if inv: "sched_inv s"
    proof -
      have nf: "a \<noteq> job" if "(a, t) \<in> set (fired (trace s))" for a t
        using inv a that by (auto simp: sched_inv_def)
      have ng: "job \<notin> set (granted (trace s))"
        using inv a by (auto simp: sched_inv_def)
      show ?thesis
        using inv a(1-3) nf ng unfolding sched_inv_def s'
        by (auto simp: emit_def nth_list_update split: if_splits)
    qed
    show ?thesis
      unfolding quiet_def using stable inv a(1-3) by (auto simp: s' emit_def nth_list_update)
  next
    case refuse
    then show ?thesis by (simp add: quiet_emit)
  next
    case bad
    then show ?thesis by simp
  qed
qed

lemma quiet_send [simp]: "quiet s (send cl d cb s)"
  by (rule quiet_same)
    (auto simp: send_def lookup_queue_def register_write_def split: option.splits)

lemma quiet_stop [simp]: "quiet s (stop s)"
  by (rule quiet_same) (auto simp: stop_def)

lemma quiet_exec_op: "exec_op c x s = (r, s') \<Longrightarrow> quiet s s'"
proof (cases x)
  case (Schedule now delay f)
  assume "exec_op c x s = (r, s')"
  then show ?thesis
    using Schedule quiet_schedule [of c now delay f s _ s']
    by (cases "schedule c now delay f s") (auto split: sum.splits)
next
  case (Unschedule job)
  assume "exec_op c x s = (r, s')"
  then show ?thesis
    using Unschedule quiet_unschedule [of job s _ s']
    by (cases "unschedule job s") (auto split: sum.splits)
qed auto

lemma quiet_run_steps: "run_steps c xs s = (r, s') \<Longrightarrow> quiet s s'"
proof (induction xs arbitrary: s)
  case Nil
  then show ?case by simp
next
  case (Cons x xs)
  obtain r1 s1 where x: "exec_op c x s = (r1, s1)" by (cases "exec_op c x s") auto
  have q1: "quiet s s1" using x by (rule quiet_exec_op)
  show ?case
  proof (cases r1)
    case None
    with Cons.prems x have "run_steps c xs s1 = (r, s')" by simp
    then have "quiet s1 s'" by (rule Cons.IH)
    with q1 show ?thesis by (rule quiet_trans)
  next
    case (Some e)
    with Cons.prems x have "s' = s1" by simp
    with q1 show ?thesis by simp
  qed
qed

lemma quiet_call: "call c f s = (r, s') \<Longrightarrow> quiet s s'"
  using quiet_run_steps [of c "steps f" s _ s']
  by (cases "run_steps c (steps f) s") (auto simp: call_def split: option.splits)

section \<open>What application code keeps of the connections\<close>

lemma app_frame_refl [simp]: "app_frame s s"
  by (simp add: app_frame_def)

lemma app_frame_trans: "app_frame s s' \<Longrightarrow> app_frame s' s'' \<Longrightarrow> app_frame s s''"
  unfolding app_frame_def
  apply (elim conjE exE)
  apply (intro conjI)
      apply simp
     apply simp
    apply blast
   apply (metis append.assoc)
  apply (metis append.assoc list_all_append)
  done

lemma app_frame_exec_op: "exec_op c x s = (r, s') \<Longrightarrow> app_frame s s'"
proof (cases x)
  case (Schedule now delay f)
  assume "exec_op c x s = (r, s')"
  then obtain r1 where "schedule c now delay f s = (r1, s')"
    using Schedule by (cases "schedule c now delay f s") (auto split: sum.splits)
  from schedule_state [OF this] show ?thesis by (auto simp: app_frame_def)
next
  case (Unschedule job)
  assume "exec_op c x s = (r, s')"
  then obtain r1 where "unschedule job s = (r1, s')"
    using Unschedule by (cases "unschedule job s") (auto split: sum.splits)
  from unschedule_state [OF this] show ?thesis by (auto simp: app_frame_def emit_def)
next
  case (Send cl d cb)
  assume "exec_op c x s = (r, s')"
  then show ?thesis
    using Send
    by (auto simp: app_frame_def send_def lookup_queue_def register_write_def split: option.splits)
next
  case Stop
  assume "exec_op c x s = (r, s')"
  then show ?thesis using Stop by (auto simp: app_frame_def stop_def)
qed

lemma app_frame_run_steps: "run_steps c xs s = (r, s') \<Longrightarrow> app_frame s s'"
proof (induction xs arbitrary: s)
  case Nil
  then show ?case by simp
next
  case (Cons x xs)
  obtain r1 s1 where x: "exec_op c x s = (r1, s1)" by (cases "exec_op c x s") auto
  have q1: "app_frame s s1" using x by (rule app_frame_exec_op)
  show ?case
  proof (cases r1)
    case None
    with Cons.prems x have "run_steps c xs s1 = (r, s')" by simp
    then have "app_frame s1 s'" by (rule Cons.IH)
    with q1 show ?thesis by (rule app_frame_trans)
  next
    case (Some e)
    with Cons.prems x have "s' = s1" by simp
    with q1 show ?thesis by simp
  qed
qed

lemma app_frame_call: "call c f s = (r, s') \<Longrightarrow> app_frame s s'"
  using app_frame_run_steps [of c "steps f" s _ s']
  by (cases "run_steps c (steps f) s") (auto simp: call_def split: option.splits)

section \<open>The dispatch loop keeps the scheduler's invariant\<close>

lemma quiet_view:
  "job_objs s' = job_objs s \<Longrightarrow> job_queue s' = job_queue s \<Longrightarrow>
   fired (trace s') = fired (trace s) \<Longrightarrow> granted (trace s') = granted (trace s) \<Longrightarrow> quiet s s'"
  by (simp add: quiet_def job_stable_def sched_inv_def)

lemma tasks_ok_quiet: "quiet s s' \<Longrightarrow> tasks_ok t s tasks \<Longrightarrow> tasks_ok t s' tasks"
  unfolding quiet_def job_stable_def tasks_ok_def by (auto; force)

lemma popped_queue:
  assumes "add_mset a (mset q') = mset q" and "distinct q"
  shows "distinct q' \<and> a \<notin> set q' \<and> set q = insert a (set q')"
proof -
  have m: "mset q = mset (a # q')" using assms(1) by simp
  have "distinct (a # q')" using mset_eq_imp_distinct_iff [OF m] assms(2) by simp
  moreover have "set q = set (a # q')" using m by (rule mset_eq_setD)
  ultimately show ?thesis by simp
qed

lemma drain_ok:
  assumes "sched_inv s" and "tasks_ok t s tasks" and "drain c t s tasks = (r, dt, tasks', s')"
  shows "sched_inv s' \<and> tasks_ok t s' tasks' \<and> job_stable s s' \<and> trace s' = trace s \<and>
         (r = None \<longrightarrow>
            0 < dt \<and> dt = (case job_queue s' of [] \<Rightarrow> 1 | a # q \<Rightarrow> time (job_objs s' ! a) - t))"
  using assms
proof (induction "length (job_queue s)" arbitrary: s tasks rule: less_induct)
  case less
  let ?dt = "case job_queue s of [] \<Rightarrow> 1 | a # q \<Rightarrow> time (job_objs s ! a) - t"
  show ?case
  proof (cases "0 < ?dt")
    case True
    then have "drain c t s tasks = (None, ?dt, tasks, s)"
      by (subst drain.simps) (simp add: Let_def)
    with less.prems True show ?thesis by auto
  next
    case False
    then obtain a q0 where q: "job_queue s = a # q0" and due: "time (job_objs s ! a) \<le> t"
      by (cases "job_queue s") auto
    obtain x q' where hp: "heappop c (job_queue s) = (x, q')"
      by (cases "heappop c (job_queue s)") auto
    have inv: "sched_inv s" by (rule less.prems(1))
    have pr: "add_mset a (mset q') = mset (job_queue s)" and x: "x = Inr a \<or> (\<exists>e. x = Inl e)"
      using heappop_result [OF _ hp] q by auto
    have dq: "distinct (job_queue s)" using inv by (simp add: sched_inv_def)
    from popped_queue [OF pr dq]
    have q': "distinct q'" "a \<notin> set q'" "set (job_queue s) = insert a (set q')" by auto
    have a: "a < length (job_objs s)" "\<not> dispatched (job_objs s ! a)"
      using inv q by (auto simp: sched_inv_def)
    have len: "length q' < length (job_queue s)"
      using pr by (metis mset_eq_length length_Cons lessI mset.simps(2))
    show ?thesis
    proof (cases x)
      case (Inl e)
      then have "drain c t s tasks = (Some e, ?dt, tasks, s\<lparr>job_queue := q'\<rparr>)"
        using False hp by (subst drain.simps) (simp add: Let_def)
      moreover have "sched_inv (s\<lparr>job_queue := q'\<rparr>)"
        using inv q' unfolding sched_inv_def by auto
      ultimately show ?thesis
        using less.prems by (auto simp: tasks_ok_def job_stable_def)
    next
      case (Inr b)
      with x have b: "b = a" by auto
      let ?s1 = "s\<lparr>job_queue := q',
                   job_objs := (job_objs s)[a := (job_objs s ! a)\<lparr>dispatched := True\<rparr>]\<rparr>"
      let ?tasks1 = "if \<not> cancel (job_objs ?s1 ! a) then tasks @ [a] else tasks"
      have run: "drain c t ?s1 ?tasks1 = (r, dt, tasks', s')"
        using less.prems(3) False hp Inr b
        by (subst (asm) drain.simps) (simp add: Let_def)
      have nf: "b \<noteq> a" if "(b, u) \<in> set (fired (trace s))" for b u
        using inv a that by (auto simp: sched_inv_def)
      have inv1: "sched_inv ?s1"
        using inv q' a nf unfolding sched_inv_def
        by (auto simp: nth_list_update split: if_splits)
      have nt: "a \<notin> set tasks" using less.prems(2) a by (auto simp: tasks_ok_def)
      have nf': "a \<notin> fst ` set (fired (trace s))" using nf by force
      have t1: "tasks_ok t ?s1 ?tasks1"
        using less.prems(2) a due nt nf' unfolding tasks_ok_def
        by (auto simp: nth_list_update split: if_splits)
      have st: "job_stable s ?s1"
        using a by (auto simp: job_stable_def nth_list_update)
      have "length (job_queue ?s1) < length (job_queue s)" using len by simp
      from less.hyps [OF this inv1 t1 run]
      have "sched_inv s' \<and> tasks_ok t s' tasks' \<and> job_stable ?s1 s' \<and> trace s' = trace ?s1 \<and>
         (r = None \<longrightarrow>
            0 < dt \<and> dt = (case job_queue s' of [] \<Rightarrow> 1 | a # q \<Rightarrow> time (job_objs s' ! a) - t))" .
      then have ih: "sched_inv s'" "tasks_ok t s' tasks'" "job_stable ?s1 s'" "trace s' = trace s"
        "r = None \<longrightarrow>
            0 < dt \<and> dt = (case job_queue s' of [] \<Rightarrow> 1 | a # q \<Rightarrow> time (job_objs s' ! a) - t)"
        by auto
      have "job_stable s s'" using st ih(3) by (rule job_stable_trans)
      with ih show ?thesis by blast
    qed
  qed
qed

lemma invoke_ok:
  assumes "sched_inv s" and "tasks_ok t s (a # tasks)"
  shows "sched_inv (emit [EvJob a t] s) \<and> tasks_ok t (emit [EvJob a t] s) tasks \<and>
         job_stable s (emit [EvJob a t] s)"
proof -
  have 1: "sched_inv (emit [EvJob a t] s)"
    using assms unfolding sched_inv_def tasks_ok_def emit_def by auto
  have 2: "tasks_ok t (emit [EvJob a t] s) tasks"
    using assms(2) unfolding tasks_ok_def emit_def by auto
  have 3: "job_stable s (emit [EvJob a t] s)"
    by (simp add: job_stable_def emit_def)
  from 1 2 3 show ?thesis by blast
qed

lemma run_tasks_ok:
  assumes "sched_inv s" and "tasks_ok t s tasks" and "run_tasks c t tasks s = (r, s')"
  shows "sched_inv s' \<and> job_stable s s'"
  using assms
proof (induction tasks arbitrary: s)
  case Nil
  then show ?case by simp
next
  case (Cons a tasks)
  let ?s0 = "emit [EvJob a t] s"
  obtain r1 s1 where cl: "call c (func (job_objs s ! a)) ?s0 = (r1, s1)"
    by (cases "call c (func (job_objs s ! a)) ?s0") auto
  from invoke_ok [OF Cons.prems(1,2)]
  have s0: "sched_inv ?s0" "tasks_ok t ?s0 tasks" "job_stable s ?s0" by auto
  have q: "quiet ?s0 s1" using cl by (rule quiet_call)
  then have s1: "sched_inv s1" "job_stable ?s0 s1" using s0(1) by (auto simp: quiet_def)
  have t1: "tasks_ok t s1 tasks" using q s0(2) by (rule tasks_ok_quiet)
  have st: "job_stable s s1" using s0(3) s1(2) by (rule job_stable_trans)
  show ?case
  proof (cases r1)
    case None
    with Cons.prems(3) cl have "run_tasks c t tasks s1 = (r, s')" by simp
    from Cons.IH [OF s1(1) t1 this] st show ?thesis
      using job_stable_trans by blast
  next
    case (Some e)
    with Cons.prems(3) cl have "s' = s1" by simp
    with s1 st show ?thesis by simp
  qed
qed

lemma tasks_ok_Nil [simp]: "tasks_ok t s []"
  by (simp add: tasks_ok_def)

lemma dispatch_event_ok:
  assumes "sched_inv s" and "dispatch_event c t s = (r, s')"
  shows "sched_inv s' \<and> job_stable s s'"
proof -
  obtain x dt tasks s1 where d: "drain c t s [] = (x, dt, tasks, s1)"
    by (cases "drain c t s []") auto
  from drain_ok [OF assms(1) _ d]
  have s1: "sched_inv s1" "tasks_ok t s1 tasks" "job_stable s s1" by auto
  show ?thesis
  proof (cases x)
    case (Some e)
    with assms(2) d have "s' = s1" by (simp add: dispatch_event_def)
    with s1 show ?thesis by simp
  next
    case None
    obtain r2 s2 where rt: "run_tasks c t tasks s1 = (r2, s2)"
      by (cases "run_tasks c t tasks s1") auto
    from run_tasks_ok [OF s1(1,2) rt] have s2: "sched_inv s2" "job_stable s1 s2" by auto
    have "s' = s2"
      using assms(2) d None rt by (cases r2) (auto simp: dispatch_event_def)
    with s2 s1(3) show ?thesis using job_stable_trans by blast
  qed
qed

section \<open>The connection entry points leave the scheduler alone\<close>

lemma quiet_clean_up_client:
  assumes "clean_up_client c cl fin oc s = (r, s')"
  shows "quiet s s'"
proof -
  let ?sA = "emit [EvOnClose cl] (s\<lparr>send_queue := (send_queue s)(fileno cl := None)\<rparr>)"
  obtain r1 s2 where cl: "call c oc ?sA = (r1, s2)" by (cases "call c oc ?sA") auto
  have a: "quiet s ?sA" by (rule quiet_view) (simp_all add: emit_def)
  have b: "quiet ?sA s2" using cl by (rule quiet_call)
  have "quiet s2 s'"
    using assms cl
    by (cases r1) (auto simp: clean_up_client_def Let_def emit_def intro!: quiet_view split: if_splits)
  with a b show ?thesis using quiet_trans by blast
qed

lemma quiet_accept:
  assumes "accept c acc s = (r, s')"
  shows "quiet s s'"
proof (cases acc)
  case (Inl e)
  with assms show ?thesis by (simp add: accept_def)
next
  case (Inr ca)
  obtain conn address where ca: "ca = (conn, address)" by (cases ca) auto
  obtain cl init where cc: "ClientClass s conn = (cl, init)" by (cases "ClientClass s conn") auto
  let ?sA = "emit [EvAccept conn address, EvSetBlocking conn] s"
  obtain r1 s1 where cl: "call c init ?sA = (r1, s1)" by (cases "call c init ?sA") auto
  have a: "quiet s ?sA" by (rule quiet_view) (simp_all add: emit_def)
  have b: "quiet ?sA s1" using cl by (rule quiet_call)
  have "quiet s1 s'"
    using assms cl Inr ca cc
    by (cases r1) (auto simp: accept_def intro!: quiet_view)
  with a b show ?thesis using quiet_trans by blast
qed

lemma quiet_nonblock_read:
  assumes "nonblock_read c cl rcv h oc s = (r, s')"
  shows "quiet s s'"
proof -
  let ?s0 = "emit [EvRecv (fileno cl)] s"
  have a: "quiet s ?s0" by (rule quiet_view) (simp_all add: emit_def)
  have "quiet ?s0 s'"
  proof (cases rcv)
    case (Inl e)
    with assms show ?thesis
      using quiet_clean_up_client [of c cl False oc ?s0 r s']
      by (auto simp: nonblock_read_def Let_def split: if_splits)
  next
    case (Inr d)
    show ?thesis
    proof (cases "d = []")
      case True
      with assms Inr show ?thesis
        using quiet_clean_up_client [of c cl False oc ?s0 r s']
        by (auto simp: nonblock_read_def Let_def)
    next
      case False
      let ?sA = "emit [EvRecvData cl d] ?s0"
      obtain r1 s1 where cl: "call c h ?sA = (r1, s1)" by (cases "call c h ?sA") auto
      have b: "quiet ?s0 ?sA" by (rule quiet_view) (simp_all add: emit_def)
      have c: "quiet ?sA s1" using cl by (rule quiet_call)
      let ?sB = "emit [EvLog ''Client recv_data failure''] s1"
      have d: "quiet s1 ?sB" by (rule quiet_view) (simp_all add: emit_def)
      have "quiet s1 s'"
      proof (cases r1)
        case None
        with assms Inr False cl show ?thesis by (simp add: nonblock_read_def Let_def)
      next
        case (Some e)
        with assms Inr False cl have "clean_up_client c cl False oc ?sB = (r, s')"
          by (simp add: nonblock_read_def Let_def)
        then have "quiet ?sB s'" by (rule quiet_clean_up_client)
        with d show ?thesis by (rule quiet_trans)
      qed
      with b c show ?thesis using quiet_trans by blast
    qed
  qed
  with a show ?thesis by (rule quiet_trans)
qed

lemma quiet_write_done:
  assumes "write_done cl s = (r, s')"
  shows "quiet s s'"
  using assms
  by (auto simp: write_done_def Let_def emit_def register_read_def intro!: quiet_view
      split: option.splits list.splits if_splits)

lemma quiet_write_top:
  assumes "write_top c cl sent oc front rest s = (r, s')"
  shows "quiet s s'"
proof (cases sent)
  case (Inl e)
  with assms show ?thesis by (simp add: write_top_def)
next
  case (Inr cb)
  let ?front = "front\<lparr>data := drop cb (data front)\<rparr>"
  let ?s1 = "emit [EvSockSend (fileno cl) (data front) cb]
               (s\<lparr>send_queue := (send_queue s)(fileno cl \<mapsto> ?front # rest)\<rparr>)"
  have a: "quiet s ?s1" by (rule quiet_view) (simp_all add: emit_def)
  have "quiet ?s1 s'"
  proof (cases "data ?front = []")
    case False
    with assms Inr show ?thesis by (simp add: write_top_def Let_def)
  next
    case True
    show ?thesis
    proof (cases "callback front")
      case None
      with assms Inr True have "write_done cl ?s1 = (r, s')"
        by (simp add: write_top_def Let_def)
      then show ?thesis by (rule quiet_write_done)
    next
      case (Some f)
      let ?sA = "emit [EvWriteCallback (fileno cl)] ?s1"
      obtain r1 s2 where cl: "call c f ?sA = (r1, s2)" by (cases "call c f ?sA") auto
      have b: "quiet ?s1 ?sA" by (rule quiet_view) (simp_all add: emit_def)
      have c: "quiet ?sA s2" using cl by (rule quiet_call)
      let ?sB = "emit [EvLog ''Client write callback failure''] s2"
      have d: "quiet s2 ?sB" by (rule quiet_view) (simp_all add: emit_def)
      have "quiet s2 s'"
      proof (cases r1)
        case None
        with assms Inr True Some cl have "write_done cl s2 = (r, s')"
          by (simp add: write_top_def Let_def)
        then show ?thesis by (rule quiet_write_done)
      next
        case e: (Some e)
        with assms Inr True Some cl have "clean_up_client c cl False oc ?sB = (r, s')"
          by (simp add: write_top_def Let_def)
        then have "quiet ?sB s'" by (rule quiet_clean_up_client)
        with d show ?thesis by (rule quiet_trans)
      qed
      with b c show ?thesis using quiet_trans by blast
    qed
  qed
  with a show ?thesis by (rule quiet_trans)
qed

lemma quiet_nonblock_write:
  assumes "nonblock_write c cl sent oc s = (r, s')"
  shows "quiet s s'"
proof -
  obtain queue s0 where lq: "lookup_queue (fileno cl) s = (queue, s0)"
    by (cases "lookup_queue (fileno cl) s") auto
  have a: "quiet s s0"
    using lq by (auto simp: lookup_queue_def intro!: quiet_view split: option.splits)
  have "quiet s0 s'"
  proof (cases queue)
    case Nil
    with assms lq show ?thesis by (simp add: nonblock_write_def)
  next
    case (Cons front rest)
    obtain r1 s1 where wt: "write_top c cl sent oc front rest s0 = (r1, s1)"
      by (cases "write_top c cl sent oc front rest s0") auto
    have b: "quiet s0 s1" using wt by (rule quiet_write_top)
    have "quiet s1 s'"
    proof (cases "r1 = Some SocketError")
      case True
      with assms lq Cons wt have "clean_up_client c cl False oc s1 = (r, s')"
        by (simp add: nonblock_write_def)
      then show ?thesis by (rule quiet_clean_up_client)
    next
      case False
      with assms lq Cons wt have "s' = s1"
        by (cases r1) (auto simp: nonblock_write_def split: if_splits)
      then show ?thesis by simp
    qed
    with b show ?thesis by (rule quiet_trans)
  qed
  with a show ?thesis by (rule quiet_trans)
qed

section \<open>Every run keeps the scheduler's invariant\<close>

lemma sched_inv_init [simp]: "sched_inv (init_server cc)"
  by (simp add: sched_inv_def init_server_def)

lemma step_ok:
  assumes "sched_inv s"
  shows "sched_inv (step c x s) \<and> job_stable s (step c x s)"
proof (cases x)
  case (Tick t)
  then show ?thesis
    using dispatch_event_ok [OF assms, of c t] by (cases "dispatch_event c t s") auto
next
  case (Api y)
  then show ?thesis
    using quiet_exec_op [of c y s] assms by (cases "exec_op c y s") (auto simp: quiet_def)
next
  case (AcceptReady acc)
  then show ?thesis
    using quiet_accept [of c acc s] assms by (cases "accept c acc s") (auto simp: quiet_def)
next
  case (ReadReady cl rcv h oc)
  then show ?thesis
    using quiet_nonblock_read [of c cl rcv h oc s] assms
    by (cases "nonblock_read c cl rcv h oc s") (auto simp: quiet_def)
next
  case (WriteReady cl sent oc)
  then show ?thesis
    using quiet_nonblock_write [of c cl sent oc s] assms
    by (cases "nonblock_write c cl sent oc s") (auto simp: quiet_def)
next
  case (CleanUp cl fin oc)
  then show ?thesis
    using quiet_clean_up_client [of c cl fin oc s] assms
    by (cases "clean_up_client c cl fin oc s") (auto simp: quiet_def)
qed

lemma exec_ok:
  assumes "sched_inv s"
  shows "sched_inv (exec c cmds s) \<and> job_stable s (exec c cmds s)"
  using assms
proof (induction cmds arbitrary: s)
  case Nil
  then show ?case by (simp add: exec_def)
next
  case (Cons x cmds)
  from step_ok [OF Cons.prems, of c x]
  have 1: "sched_inv (step c x s)" "job_stable s (step c x s)" by auto
  from Cons.IH [OF 1(1)]
  have 2: "sched_inv (exec c cmds (step c x s))" "job_stable (step c x s) (exec c cmds (step c x s))"
    by auto
  have "exec c (x # cmds) s = exec c cmds (step c x s)" by (simp add: exec_def)
  with 1 2 show ?case using job_stable_trans by metis
qed

section \<open>A popped job does not come back\<close>

lemma drain_queue_subset:
  "drain c t s tasks = (r, dt, tasks', s') \<Longrightarrow>
     set (job_queue s') \<subseteq> set (job_queue s) \<and> length (job_objs s') = length (job_objs s)"
proof (induction "length (job_queue s)" arbitrary: s tasks rule: less_induct)
  case less
  let ?dt = "case job_queue s of [] \<Rightarrow> 1 | a # q \<Rightarrow> time (job_objs s ! a) - t"
  show ?case
  proof (cases "0 < ?dt")
    case True
    then have "drain c t s tasks = (None, ?dt, tasks, s)"
      by (subst drain.simps) (simp add: Let_def)
    with less.prems show ?thesis by auto
  next
    case False
    then have ne: "job_queue s \<noteq> []" by (auto split: list.splits)
    obtain x q' where hp: "heappop c (job_queue s) = (x, q')"
      by (cases "heappop c (job_queue s)") auto
    have pr: "add_mset (hd (job_queue s)) (mset q') = mset (job_queue s)"
      using heappop_result [OF ne hp] by simp
    then have "set (job_queue s) = set (hd (job_queue s) # q')"
      by (metis mset.simps(2) mset_eq_setD)
    then have sub: "set q' \<subseteq> set (job_queue s)" by auto
    have len: "length q' < length (job_queue s)"
      using pr by (metis mset_eq_length length_Cons lessI mset.simps(2))
    show ?thesis
    proof (cases x)
      case (Inl e)
      then have "drain c t s tasks = (Some e, ?dt, tasks, s\<lparr>job_queue := q'\<rparr>)"
        using False hp by (subst drain.simps) (simp add: Let_def)
      with less.prems sub show ?thesis by auto
    next
      case (Inr b)
      let ?s1 = "s\<lparr>job_queue := q',
                   job_objs := (job_objs s)[b := (job_objs s ! b)\<lparr>dispatched := True\<rparr>]\<rparr>"
      let ?tasks1 = "if \<not> cancel (job_objs ?s1 ! b) then tasks @ [b] else tasks"
      have run: "drain c t ?s1 ?tasks1 = (r, dt, tasks', s')"
        using less.prems False hp Inr
        by (subst (asm) drain.simps) (simp add: Let_def)
      have "length (job_queue ?s1) < length (job_queue s)" using len by simp
      from less.hyps [OF this run] sub show ?thesis by auto
    qed
  qed
qed

lemma drain_pops_due_root:
  assumes "sched_inv s" and "job_queue s = a # q" and "time (job_objs s ! a) \<le> t"
    and "drain c t s tasks = (r, dt, tasks', s')"
  shows "a \<notin> set (job_queue s')"
proof -
  obtain x q' where hp: "heappop c (job_queue s) = (x, q')"
    by (cases "heappop c (job_queue s)") auto
  have pr: "add_mset a (mset q') = mset (job_queue s)"
    using heappop_result [OF _ hp] assms(2) by simp
  have "distinct (job_queue s)" using assms(1) by (simp add: sched_inv_def)
  from popped_queue [OF pr this] have nq: "a \<notin> set q'" by simp
  show ?thesis
  proof (cases x)
    case (Inl e)
    then have "drain c t s tasks = (Some e, time (job_objs s ! a) - t, tasks, s\<lparr>job_queue := q'\<rparr>)"
      using assms(2,3) hp by (subst drain.simps) (simp add: Let_def)
    with assms(4) nq show ?thesis by auto
  next
    case (Inr b)
    let ?s1 = "s\<lparr>job_queue := q',
                 job_objs := (job_objs s)[b := (job_objs s ! b)\<lparr>dispatched := True\<rparr>]\<rparr>"
    let ?tasks1 = "if \<not> cancel (job_objs ?s1 ! b) then tasks @ [b] else tasks"
    have "drain c t ?s1 ?tasks1 = (r, dt, tasks', s')"
      using assms(2,3,4) hp Inr
      by (subst (asm) drain.simps) (simp add: Let_def)
    from drain_queue_subset [OF this] nq show ?thesis by auto
  qed
qed

lemma run_tasks_queue:
  "run_tasks c t tasks s = (r, s') \<Longrightarrow>
     length (job_objs s) \<le> length (job_objs s') \<and>
     (\<forall>a \<in> set (job_queue s'). a \<in> set (job_queue s) \<or> length (job_objs s) \<le> a)"
proof (induction tasks arbitrary: s)
  case Nil
  then show ?case by simp
next
  case (Cons a tasks)
  let ?s0 = "emit [EvJob a t] s"
  obtain r1 s1 where cl: "call c (func (job_objs s ! a)) ?s0 = (r1, s1)"
    by (cases "call c (func (job_objs s ! a)) ?s0") auto
  have "quiet ?s0 s1" using cl by (rule quiet_call)
  then have 1: "length (job_objs s) \<le> length (job_objs s1)"
    "\<forall>a \<in> set (job_queue s1). a \<in> set (job_queue s) \<or> length (job_objs s) \<le> a"
    by (auto simp: quiet_def job_stable_def emit_def)
  show ?case
  proof (cases r1)
    case None
    with Cons.prems cl have "run_tasks c t tasks s1 = (r, s')" by simp
    from Cons.IH [OF this] 1 show ?thesis by (auto; force)
  next
    case (Some e)
    with Cons.prems cl have "s' = s1" by simp
    with 1 show ?thesis by simp
  qed
qed

lemma tick_pops_due_root:
  assumes "sched_inv s" and "job_queue s = a # q" and "time (job_objs s ! a) \<le> t"
  shows "a \<notin> set (job_queue (snd (dispatch_event c t s)))"
proof -
  obtain x dt tasks s1 where d: "drain c t s [] = (x, dt, tasks, s1)"
    by (cases "drain c t s []") auto
  have a1: "a \<notin> set (job_queue s1)" using drain_pops_due_root [OF assms d] .
  have a: "a < length (job_objs s)" using assms(1,2) by (simp add: sched_inv_def)
  then have al: "a < length (job_objs s1)" using drain_queue_subset [OF d] by simp
  show ?thesis
  proof (cases x)
    case (Some e)
    with d a1 show ?thesis by (simp add: dispatch_event_def)
  next
    case None
    obtain r2 s2 where rt: "run_tasks c t tasks s1 = (r2, s2)"
      by (cases "run_tasks c t tasks s1") auto
    have "a \<notin> set (job_queue s2)" using run_tasks_queue [OF rt] a1 al by auto
    moreover have "snd (dispatch_event c t s) = s2"
      using d None rt by (cases r2) (auto simp: dispatch_event_def)
    ultimately show ?thesis by simp
  qed
qed

section \<open>A scheduled job fires at most once, on time, and not when cancelled\<close>

text \<open>
  Claim C2. In every run of the server, from its construction, through any operations,
  ticks and readiness events and whatever the callbacks do: no job is invoked twice; a job
  is invoked only by a tick whose clock reading is at least the job's fire time, which is
  the value \<^verbatim>\<open>schedule\<close> stored in the job's \<^verbatim>\<open>time\<close> field and which never changes; a job
  whose cancel flag is set at some point of the run is invoked neither before nor after;
  and the tick that finds a due job at the root of the heap pops it, so a cancelled one is
  removed without being run.
\<close>

theorem scheduled_job_fires_once:
  assumes "s = exec c before (init_server cc)" and "s' = exec c after s"
  shows "distinct (map fst (fired (trace s'))) \<and>
         (\<forall>(a, t) \<in> set (fired (trace s')).
            a < length (job_objs s') \<and> time (job_objs s' ! a) \<le> t \<and> dispatched (job_objs s' ! a)) \<and>
         (\<forall>a < length (job_objs s).
            time (job_objs s' ! a) = time (job_objs s ! a) \<and>
            (cancel (job_objs s ! a) \<longrightarrow> a \<notin> fst ` set (fired (trace s')))) \<and>
         (\<forall>a q t. job_queue s = a # q \<and> time (job_objs s ! a) \<le> t \<longrightarrow>
            a \<notin> set (job_queue (snd (dispatch_event c t s))))"
proof -
  have inv: "sched_inv s" using exec_ok [of "init_server cc" c before] assms(1) by simp
  from exec_ok [OF inv, of c after]
  have inv': "sched_inv s'" and st: "job_stable s s'" using assms(2) by simp_all
  have a: "distinct (map fst (fired (trace s')))" using inv' by (simp add: sched_inv_def)
  have b: "\<forall>(a, t) \<in> set (fired (trace s')).
            a < length (job_objs s') \<and> time (job_objs s' ! a) \<le> t \<and> dispatched (job_objs s' ! a)"
    using inv' by (auto simp: sched_inv_def)
  have c: "\<forall>a < length (job_objs s).
            time (job_objs s' ! a) = time (job_objs s ! a) \<and>
            (cancel (job_objs s ! a) \<longrightarrow> a \<notin> fst ` set (fired (trace s')))"
  proof (intro allI impI conjI)
    fix a assume a: "a < length (job_objs s)"
    show "time (job_objs s' ! a) = time (job_objs s ! a)"
      using st a by (simp add: job_stable_def)
    assume "cancel (job_objs s ! a)"
    then have "cancel (job_objs s' ! a)" using st a by (simp add: job_stable_def)
    then show "a \<notin> fst ` set (fired (trace s'))"
      using inv' by (auto simp: sched_inv_def)
  qed
  have d: "\<forall>a q t. job_queue s = a # q \<and> time (job_objs s ! a) \<le> t \<longrightarrow>
            a \<notin> set (job_queue (snd (dispatch_event c t s)))"
    using tick_pops_due_root [OF inv] by blast
  show ?thesis by (intro conjI) (rule a b c d)+
qed

theorem scheduled_job_fires_once_witness:
  "fired (trace (exec (ByAddress (\<lambda>a. a)) [Tick 3, Tick 4]
      (exec (ByAddress (\<lambda>a. a))
         [Api (Schedule 0 1 noop), Api (Schedule 0 2 noop), Api (Unschedule 1)]
         (init_server plain_factory)))) = [(0, 3)]
   \<and> cancel (job_objs (exec (ByAddress (\<lambda>a. a))
         [Api (Schedule 0 1 noop), Api (Schedule 0 2 noop), Api (Unschedule 1)]
         (init_server plain_factory)) ! 1)
   \<and> job_queue (exec (ByAddress (\<lambda>a. a))
         [Api (Schedule 0 1 noop), Api (Schedule 0 2 noop), Api (Unschedule 1)]
         (init_server plain_factory)) = [0, 1]
   \<and> 0 \<notin> set (job_queue (snd (dispatch_event (ByAddress (\<lambda>a. a)) 3
         (exec (ByAddress (\<lambda>a. a))
           [Api (Schedule 0 1 noop), Api (Schedule 0 2 noop), Api (Unschedule 1)]
           (init_server plain_factory)))))
   \<and> 1 \<notin> fst ` set (fired (trace (exec (ByAddress (\<lambda>a. a)) [Tick 3, Tick 4]
      (exec (ByAddress (\<lambda>a. a))
         [Api (Schedule 0 1 noop), Api (Schedule 0 2 noop), Api (Unschedule 1)]
         (init_server plain_factory)))))"
proof -
  let ?c = "ByAddress (\<lambda>a. a)"
  let ?s1 = "exec ?c [Api (Schedule 0 1 noop), Api (Schedule 0 2 noop), Api (Unschedule 1)]
               (init_server plain_factory)"
  let ?s2 = "exec ?c [Tick 3, Tick 4] ?s1"
  have f: "fired (trace ?s2) = [(0, 3)]" by code_simp
  have q: "job_queue ?s1 = [0, 1]" by code_simp
  have o: "cancel (job_objs ?s1 ! 1)" "length (job_objs ?s1) = 2" "time (job_objs ?s1 ! 0) = 1"
    by code_simp+
  from scheduled_job_fires_once [where c = ?c and after = "[Tick 3, Tick 4]" and cc = plain_factory
      and before = "[Api (Schedule 0 1 noop), Api (Schedule 0 2 noop), Api (Unschedule 1)]",
      OF refl refl]
  have "(\<forall>a < length (job_objs ?s1). 
            (cancel (job_objs ?s1 ! a) \<longrightarrow> a \<notin> fst ` set (fired (trace ?s2))))"
    and "(\<forall>a q t. job_queue ?s1 = a # q \<and> time (job_objs ?s1 ! a) \<le> t \<longrightarrow>
            a \<notin> set (job_queue (snd (dispatch_event ?c t ?s1))))"
    by blast+
  then have "1 \<notin> fst ` set (fired (trace ?s2))"
    and "0 \<notin> set (job_queue (snd (dispatch_event ?c 3 ?s1)))"
    using o q by auto
  with f q o show ?thesis by blast
qed

section \<open>Cancelling a job\<close>

text \<open>
  Claim C8. For the handle of a job of a running server, \<^verbatim>\<open>unschedule\<close> returns
  \<^verbatim>\<open>False\<close> when the job is dispatched or cancelled already and changes nothing of the
  job; otherwise it sets the job's \<^verbatim>\<open>cancel\<close> flag and returns \<^verbatim>\<open>True\<close>. Whatever the
  run does after a call, a later call on the same handle returns \<^verbatim>\<open>False\<close>, and over a
  whole run no job has had \<^verbatim>\<open>True\<close> returned for it twice.
\<close>

theorem unschedule_once:
  assumes "s = exec c before (init_server cc)" and "job < length (job_objs s)"
    and "unschedule job s = (r, s')" and "s'' = exec c after s'"
  shows "r = Inr (\<not> (dispatched (job_objs s ! job) \<or> cancel (job_objs s ! job))) \<and>
         (r = Inr True \<longrightarrow> cancel (job_objs s' ! job)) \<and>
         (r = Inr False \<longrightarrow> job_objs s' = job_objs s) \<and>
         fst (unschedule job s'') = Inr False \<and>
         distinct (granted (trace s''))"
proof -
  have inv: "sched_inv s" using exec_ok [of "init_server cc" c before] assms(1) by simp
  have q: "quiet s s'" using assms(3) by (rule quiet_unschedule)
  then have inv': "sched_inv s'" and st: "job_stable s s'" using inv by (auto simp: quiet_def)
  from exec_ok [OF inv', of c after]
  have inv'': "sched_inv s''" and st': "job_stable s' s''" using assms(4) by simp_all
  have r: "r = Inr (\<not> (dispatched (job_objs s ! job) \<or> cancel (job_objs s ! job)))"
    using unschedule_state [OF assms(3)] assms(2) by auto
  have c: "r = Inr True \<longrightarrow> cancel (job_objs s' ! job)"
    using unschedule_state [OF assms(3)] assms(2) by (auto simp: emit_def)
  have f: "r = Inr False \<longrightarrow> job_objs s' = job_objs s"
    using unschedule_state [OF assms(3)] assms(2) by (auto simp: emit_def)
  have "dispatched (job_objs s' ! job) \<or> cancel (job_objs s' ! job)"
    using unschedule_state [OF assms(3)] assms(2) by (auto simp: emit_def)
  moreover have j': "job < length (job_objs s')" using st assms(2) by (simp add: job_stable_def)
  ultimately have "dispatched (job_objs s'' ! job) \<or> cancel (job_objs s'' ! job)"
    and "job < length (job_objs s'')"
    using st' by (auto simp: job_stable_def)
  then have l: "fst (unschedule job s'') = Inr False"
    by (auto simp: unschedule_def Let_def)
  have g: "distinct (granted (trace s''))" using inv'' by (simp add: sched_inv_def)
  from r c f l g show ?thesis by blast
qed

theorem unschedule_once_witness:
  "0 < length (job_objs (exec Unorderable [Api (Schedule 0 1 noop)] (init_server plain_factory)))
   \<and> fst (unschedule 0 (exec Unorderable [Api (Schedule 0 1 noop)] (init_server plain_factory)))
       = Inr True
   \<and> fst (unschedule 0 (exec Unorderable [Tick 2]
        (snd (unschedule 0 (exec Unorderable [Api (Schedule 0 1 noop)] (init_server plain_factory))))))
       = Inr False
   \<and> fired (trace (exec Unorderable [Tick 2]
        (snd (unschedule 0 (exec Unorderable [Api (Schedule 0 1 noop)] (init_server plain_factory))))))
       = []"
proof -
  let ?s = "exec Unorderable [Api (Schedule 0 1 noop)] (init_server plain_factory)"
  have l: "0 < length (job_objs ?s)" by code_simp
  have t: "fst (unschedule 0 ?s) = Inr True" by code_simp
  have n: "fired (trace (exec Unorderable [Tick 2] (snd (unschedule 0 ?s)))) = []" by code_simp
  have "unschedule 0 ?s = (fst (unschedule 0 ?s), snd (unschedule 0 ?s))" by simp
  from unschedule_once [OF refl l this refl, of "[Tick 2]"]
  have "fst (unschedule 0 (exec Unorderable [Tick 2] (snd (unschedule 0 ?s)))) = Inr False"
    by blast
  with l t n show ?thesis by blast
qed

section \<open>What a tick returns\<close>




lemma tick_on_empty_heap: "job_queue s = [] \<Longrightarrow> dispatch_event c t s = (Inr 1, s)"
  by (simp add: dispatch_event_def drain.simps)



lemma heappop_by_address:
  assumes "heap \<noteq> []"
  shows "fst (heappop (ByAddress f) heap) = Inr (hd heap)"
proof -
  obtain a as where heap: "heap = a # as" using assms by (cases heap) auto
  show ?thesis
  proof (cases "as = []")
    case True
    with heap show ?thesis by (simp add: heappop_def)
  next
    case False
    let ?h = "last as # butlast as"
    obtain x h2 where sp: "siftup_loop (ByAddress f) ?h (?h ! 0) 0 0 = (x, h2)"
      by (cases "siftup_loop (ByAddress f) ?h (?h ! 0) 0 0") auto
    from siftup_loop_by_address [OF _ sp] have "x = None" by simp
    with sp heap False show ?thesis by (simp add: heappop_def siftup_def Let_def)
  qed
qed

text \<open>With objects ordered by address no comparison raises, so the loop under the lock
  always completes.\<close>

lemma drain_by_address_returns: "fst (drain (ByAddress f) t s tasks) = None"
proof (induction "length (job_queue s)" arbitrary: s tasks rule: less_induct)
  case less
  let ?dt = "case job_queue s of [] \<Rightarrow> 1 | a # q \<Rightarrow> time (job_objs s ! a) - t"
  show ?case
  proof (cases "0 < ?dt")
    case True
    then show ?thesis by (subst drain.simps) (simp add: Let_def)
  next
    case False
    then have ne: "job_queue s \<noteq> []" by (auto split: list.splits)
    obtain x q' where hp: "heappop (ByAddress f) (job_queue s) = (x, q')"
      by (cases "heappop (ByAddress f) (job_queue s)") auto
    have x: "x = Inr (hd (job_queue s))" using heappop_by_address [OF ne, of f] hp by simp
    have "length q' = length (job_queue s) - 1"
      using length_heappop [OF ne, of "ByAddress f"] hp by simp
    then have len: "length q' < length (job_queue s)" using ne by (cases "job_queue s") auto
    let ?b = "hd (job_queue s)"
    let ?s1 = "s\<lparr>job_queue := q',
                 job_objs := (job_objs s)[?b := (job_objs s ! ?b)\<lparr>dispatched := True\<rparr>]\<rparr>"
    let ?tasks1 = "if \<not> cancel (job_objs ?s1 ! ?b) then tasks @ [?b] else tasks"
    have "drain (ByAddress f) t s tasks = drain (ByAddress f) t ?s1 ?tasks1"
      using False hp x by (subst drain.simps) (simp add: Let_def)
    moreover have "length (job_queue ?s1) < length (job_queue s)" using len by simp
    ultimately show ?thesis using less.hyps by simp
  qed
qed

section \<open>An action that raises\<close>

lemma run_tasks_append:
  "run_tasks c t (xs @ ys) s =
     (case run_tasks c t xs s of
        (Some e, s') \<Rightarrow> (Some e, s')
      | (None, s') \<Rightarrow> run_tasks c t ys s')"
  by (induction xs arbitrary: s) (auto split: prod.splits option.splits)

text \<open>
  Claim C7. The actions collected by a tick are called outside any \<^verbatim>\<open>try\<close>: when the
  ones before \<open>task\<close> have returned and the action of \<open>task\<close> raises \<open>e\<close>, then
  \<^verbatim>\<open>_dispatch_event\<close> ends with \<open>e\<close>, in the state the action left, and the tasks after
  it are not invoked.
\<close>

theorem job_exception_propagates:
  assumes "drain c t s [] = (None, dt, earlier @ task # later, mid)"
    and "run_tasks c t earlier mid = (None, s')"
    and "call c (func (job_objs s' ! task)) (emit [EvJob task t] s') = (Some e, s'')"
  shows "dispatch_event c t s = (Inl e, s'') \<and>
         fired (trace s'') = fired (trace s') @ [(task, t)]"
proof -
  have "run_tasks c t (earlier @ task # later) mid = (Some e, s'')"
    using assms(2,3) by (simp add: run_tasks_append)
  then have 1: "dispatch_event c t s = (Inl e, s'')"
    using assms(1) by (simp add: dispatch_event_def)
  have "quiet (emit [EvJob task t] s') s''" using assms(3) by (rule quiet_call)
  then have 2: "fired (trace s'') = fired (trace s') @ [(task, t)]"
    by (simp add: quiet_def emit_def)
  from 1 2 show ?thesis by blast
qed

theorem job_exception_propagates_witness:
  "fst (dispatch_event (ByAddress (\<lambda>a. a)) 5
      (exec (ByAddress (\<lambda>a. a))
         [Api (Schedule 0 1 noop), Api (Schedule 0 2 failing), Api (Schedule 0 3 noop)]
         (init_server plain_factory))) = Inl (AppError 7)
   \<and> fired (trace (snd (dispatch_event (ByAddress (\<lambda>a. a)) 5
      (exec (ByAddress (\<lambda>a. a))
         [Api (Schedule 0 1 noop), Api (Schedule 0 2 failing), Api (Schedule 0 3 noop)]
         (init_server plain_factory))))) = [(0, 5), (1, 5)]"
proof -
  let ?c = "ByAddress (\<lambda>a. a)"
  let ?s = "exec ?c [Api (Schedule 0 1 noop), Api (Schedule 0 2 failing), Api (Schedule 0 3 noop)]
              (init_server plain_factory)"
  let ?mid = "snd (snd (snd (drain ?c 5 ?s [])))"
  let ?s' = "snd (run_tasks ?c 5 [0] ?mid)"
  let ?s'' = "snd (call ?c (func (job_objs ?s' ! 1)) (emit [EvJob 1 5] ?s'))"
  have d: "fst (drain ?c 5 ?s []) = None" "fst (snd (snd (drain ?c 5 ?s []))) = [0] @ 1 # [2]"
    by code_simp+
  have r: "fst (run_tasks ?c 5 [0] ?mid) = None" by code_simp
  have k: "fst (call ?c (func (job_objs ?s' ! 1)) (emit [EvJob 1 5] ?s')) = Some (AppError 7)"
    by code_simp
  have f: "fired (trace ?s') = [(0, 5)]" by code_simp
  have 1: "drain ?c 5 ?s [] = (None, fst (snd (drain ?c 5 ?s [])), [0] @ 1 # [2], ?mid)"
    using d by (simp add: prod_eq_iff)
  have 2: "run_tasks ?c 5 [0] ?mid = (None, ?s')" using r by (simp add: prod_eq_iff)
  have 3: "call ?c (func (job_objs ?s' ! 1)) (emit [EvJob 1 5] ?s') = (Some (AppError 7), ?s'')"
    using k by (simp add: prod_eq_iff)
  from job_exception_propagates [OF 1 2 3] f show ?thesis by simp
qed

section \<open>The order of the job heap\<close>

text \<open>With Python 3's objects every \<^verbatim>\<open>schedule\<close> on a heap that holds a job raises
  \<^verbatim>\<open>TypeError\<close>, after \<^verbatim>\<open>heappush\<close> has appended the new job at the end.\<close>

lemma schedule_unorderable_raises:
  assumes "job_queue s \<noteq> []"
  shows "fst (schedule Unorderable now delay f s) = Inl TypeError \<and>
         job_queue (snd (schedule Unorderable now delay f s)) = job_queue s @ [length (job_objs s)]"
  using assms by (simp add: schedule_def Let_def heappush_unorderable)

lemma heappop_two: "heappop c [a, b] = (Inr a, [b])"
  by (simp add: heappop_def siftup_def siftup_loop.simps siftdown_def siftdown_loop.simps)

lemma heappop_one: "heappop c [a] = (Inr a, [])"
  by (simp add: heappop_def)

lemma heappush_second:
  "heappush (ByAddress addr) [0] (Suc 0) =
     (None, if addr (Suc 0) < addr 0 then [Suc 0, 0] else [0, Suc 0])"
  by (simp add: heappush_def siftdown_def siftdown_loop.simps)

text \<open>Two jobs with the same fire time, scheduled on a new server and both due at the
  next tick: the one whose object has the lower address is invoked first.\<close>

lemma two_due_jobs:
  assumes "u \<le> t"
  shows "map fst (fired (trace (exec (ByAddress addr)
           [Api (Schedule 0 u noop), Api (Schedule 0 u noop), Tick t] (init_server cc))))
         = (if addr (Suc 0) < addr 0 then [Suc 0, 0] else [0, Suc 0])"
proof -
  let ?c = "ByAddress addr"
  let ?job = "\<lparr>time = u, func = noop, cancel = False, dispatched = False\<rparr>"
  let ?q = "if addr (Suc 0) < addr 0 then [Suc 0, 0] else [0, Suc 0]"
  let ?s = "(init_server cc)\<lparr>job_objs := [?job, ?job], job_queue := ?q\<rparr>"
  let ?mid = "?s\<lparr>job_queue := [],
                  job_objs := [?job\<lparr>dispatched := True\<rparr>, ?job\<lparr>dispatched := True\<rparr>]\<rparr>"
  have s: "exec ?c [Api (Schedule 0 u noop), Api (Schedule 0 u noop)] (init_server cc) = ?s"
    by (simp add: exec_def schedule_def init_server_def heappush_second Let_def
        heappush_def siftdown_def siftdown_loop.simps)
  have d: "drain ?c t ?s [] = (None, 1, ?q, ?mid)"
    using assms
    by (cases "addr (Suc 0) < addr 0")
      (simp_all add: drain.simps [of _ _ _ "[]"] drain.simps [of _ _ _ "[_]"]
        drain.simps [of _ _ _ "[_, _]"] Let_def heappop_two heappop_one init_server_def)
  have r: "map fst (fired (trace (snd (run_tasks ?c t ?q ?mid)))) = ?q"
    by (simp add: call_def noop_def emit_def init_server_def)
  have "exec ?c [Api (Schedule 0 u noop), Api (Schedule 0 u noop), Tick t] (init_server cc)
          = snd (dispatch_event ?c t ?s)"
    using s by (simp add: exec_def)
  moreover have "snd (dispatch_event ?c t ?s) = snd (run_tasks ?c t ?q ?mid)"
    using d by (cases "run_tasks ?c t ?q ?mid") (auto simp: dispatch_event_def split: option.splits)
  ultimately show ?thesis using r by simp
qed

text \<open>
  Claim C1 says that \<^verbatim>\<open>schedule\<close> inserts the job into a heap ordered by fire time and
  that jobs with equal fire times are dispatched in the order they were scheduled. The
  class \<^verbatim>\<open>ScheduledJob\<close> defines no comparison, so the heap is ordered by nothing that
  involves the time. With Python 3's objects: after \<^verbatim>\<open>schedule(5, f)\<close> the call
  \<^verbatim>\<open>schedule(1, g)\<close> raises \<^verbatim>\<open>TypeError\<close>, the heap is left as job 0 (due at 5), job 1
  (due at 1), and a tick at time 2 invokes nothing although job 1 is due. With Python 2's
  objects, ordered by address: when addresses grow with the order of creation the same
  tick invokes nothing either, and when they fall, two jobs due at the same time are
  invoked in the reverse of the order they were scheduled.
\<close>

theorem job_heap_not_ordered_by_fire_time:
  "fst (schedule Unorderable 0 1 noop
      (exec Unorderable [Api (Schedule 0 5 noop)] (init_server plain_factory))) = Inl TypeError
   \<and> job_queue (exec Unorderable [Api (Schedule 0 5 noop), Api (Schedule 0 1 noop)]
      (init_server plain_factory)) = [0, 1]
   \<and> map time (job_objs (exec Unorderable [Api (Schedule 0 5 noop), Api (Schedule 0 1 noop)]
      (init_server plain_factory))) = [5, 1]
   \<and> fst (dispatch_event Unorderable 2
      (exec Unorderable [Api (Schedule 0 5 noop), Api (Schedule 0 1 noop)]
         (init_server plain_factory))) = Inr 1
   \<and> fired (trace (exec Unorderable [Api (Schedule 0 5 noop), Api (Schedule 0 1 noop), Tick 2]
      (init_server plain_factory))) = []
   \<and> fired (trace (exec (ByAddress (\<lambda>a. a))
      [Api (Schedule 0 5 noop), Api (Schedule 0 1 noop), Tick 2]
      (init_server plain_factory))) = []
   \<and> fired (trace (exec (ByAddress (\<lambda>a. 10 - a))
      [Api (Schedule 0 1 noop), Api (Schedule 0 1 noop), Tick 2]
      (init_server plain_factory))) = [(1, 2), (0, 2)]"
  by code_simp

section \<open>Accepting a connection\<close>

lemma writers_exec_op:
  "exec_op c x s = (r, s') \<Longrightarrow> \<not> sends_to cl x \<Longrightarrow> cl \<in> writers s' \<longleftrightarrow> cl \<in> writers s"
proof (cases x)
  case (Schedule now delay f)
  assume "exec_op c x s = (r, s')"
  then obtain r1 where "schedule c now delay f s = (r1, s')"
    using Schedule by (cases "schedule c now delay f s") (auto split: sum.splits)
  from schedule_state [OF this] show ?thesis by auto
next
  case (Unschedule job)
  assume "exec_op c x s = (r, s')"
  then obtain r1 where "unschedule job s = (r1, s')"
    using Unschedule by (cases "unschedule job s") (auto split: sum.splits)
  from unschedule_state [OF this] show ?thesis by (auto simp: emit_def)
next
  case (Send cl' d cb)
  assume "exec_op c x s = (r, s')" and "\<not> sends_to cl x"
  then show ?thesis
    using Send
    by (auto simp: send_def lookup_queue_def register_write_def split: option.splits)
next
  case Stop
  assume "exec_op c x s = (r, s')"
  then show ?thesis using Stop by (auto simp: stop_def)
qed

lemma writers_run_steps:
  "run_steps c xs s = (r, s') \<Longrightarrow> \<forall>x \<in> set xs. \<not> sends_to cl x \<Longrightarrow>
     cl \<in> writers s' \<longleftrightarrow> cl \<in> writers s"
proof (induction xs arbitrary: s)
  case Nil
  then show ?case by simp
next
  case (Cons x xs)
  obtain r1 s1 where x: "exec_op c x s = (r1, s1)" by (cases "exec_op c x s") auto
  have 1: "cl \<in> writers s1 \<longleftrightarrow> cl \<in> writers s"
    using writers_exec_op [OF x] Cons.prems(2) by simp
  show ?case
  proof (cases r1)
    case None
    with Cons.prems x have "run_steps c xs s1 = (r, s')" by simp
    from Cons.IH [OF this] Cons.prems(2) 1 show ?thesis by simp
  next
    case (Some e)
    with Cons.prems x have "s' = s1" by simp
    with 1 show ?thesis by simp
  qed
qed

lemma writers_call:
  "call c f s = (r, s') \<Longrightarrow> \<forall>x \<in> set (steps f). \<not> sends_to cl x \<Longrightarrow>
     cl \<in> writers s' \<longleftrightarrow> cl \<in> writers s"
  using writers_run_steps [of c "steps f" s _ s' cl]
  by (cases "run_steps c (steps f) s") (auto simp: call_def split: option.splits)

text \<open>
  Claim C9. When a connection is pending, so that \<^verbatim>\<open>accept\<close> on the listening socket
  yields \<open>conn\<close>, and the constructor of the client class returns, \<^verbatim>\<open>_accept\<close> accepts that
  one connection, sets it non-blocking, has the factory wrap it, adds the client the
  factory made to the active set and returns it. It registers no interest itself: a client
  that was not registered for write-readiness and whose constructor sends it nothing has
  interest READ.
\<close>

theorem accept_adds_client:
  assumes "ClientClass s conn = (cl, init)"
    and "call c init (emit [EvAccept conn address, EvSetBlocking conn] s) = (None, built)"
    and "accept c (Inr (conn, address)) s = (r, s')"
  shows "r = Inr cl \<and> clients s' = insert cl (clients s) \<and>
         (\<exists>es. trace s' = trace s @ [EvAccept conn address, EvSetBlocking conn] @ es \<and>
               list_all is_unschedule es) \<and>
         writers s' = writers built \<and> send_queue s' = send_queue built \<and>
         (cl \<notin> writers s \<and> (\<forall>x \<in> set (steps init). \<not> sends_to cl x)
            \<longrightarrow> interest_state s' cl = READ)"
proof -
  let ?s0 = "emit [EvAccept conn address, EvSetBlocking conn] s"
  have s': "s' = built\<lparr>clients := insert cl (clients built)\<rparr>" and r: "r = Inr cl"
    using assms by (auto simp: accept_def)
  have fr: "app_frame ?s0 built" using assms(2) by (rule app_frame_call)
  then have cls: "clients built = clients s" by (simp add: app_frame_def emit_def)
  from fr obtain es where es: "trace built = trace ?s0 @ es" "list_all is_unschedule es"
    by (auto simp: app_frame_def)
  have i: "interest_state s' cl = READ"
    if "cl \<notin> writers s" "\<forall>x \<in> set (steps init). \<not> sends_to cl x"
    using writers_call [OF assms(2) that(2)] that(1) by (simp add: s' interest_state_def emit_def)
  show ?thesis
    using r cls es i by (auto simp: s' emit_def)
qed

theorem accept_adds_client_witness:
  "fst (accept Unorderable (Inr (4, 99)) (init_server plain_factory)) = Inr \<lparr>ident = 4, fileno = 4\<rparr>
   \<and> clients (snd (accept Unorderable (Inr (4, 99)) (init_server plain_factory)))
       = {\<lparr>ident = 4, fileno = 4\<rparr>}
   \<and> trace (snd (accept Unorderable (Inr (4, 99)) (init_server plain_factory)))
       = [EvAccept 4 99, EvSetBlocking 4]
   \<and> interest_state (snd (accept Unorderable (Inr (4, 99)) (init_server plain_factory)))
       \<lparr>ident = 4, fileno = 4\<rparr> = READ"
proof -
  let ?s = "init_server plain_factory"
  let ?cl = "\<lparr>ident = 4, fileno = 4\<rparr>"
  have 1: "ClientClass ?s 4 = (?cl, Callable [] None)"
    by (simp add: init_server_def plain_factory_def)
  have 2: "call Unorderable (Callable [] None) (emit [EvAccept 4 99, EvSetBlocking 4] ?s)
             = (None, emit [EvAccept 4 99, EvSetBlocking 4] ?s)"
    by (simp add: call_def)
  have 3: "accept Unorderable (Inr (4, 99)) ?s
             = (fst (accept Unorderable (Inr (4, 99)) ?s), snd (accept Unorderable (Inr (4, 99)) ?s))"
    by simp
  have 4: "?cl \<notin> writers ?s" by (simp add: init_server_def)
  have 5: "trace (snd (accept Unorderable (Inr (4, 99)) ?s)) = [EvAccept 4 99, EvSetBlocking 4]"
    using 1 by (simp add: accept_def call_def emit_def init_server_def)
  have 6: "clients ?s = {}" by (simp add: init_server_def)
  from accept_adds_client [OF 1 2 3] 4 5 6 show ?thesis by simp
qed

section \<open>Messages reach the transport in the order they were sent\<close>

lemma delivered_append [simp]: "delivered fd (xs @ ys) = delivered fd xs @ delivered fd ys"
  by (induction fd xs rule: delivered.induct) auto

text \<open>One write-readiness event on a queue whose front message has no callback.\<close>

lemma plain_write:
  assumes "send_queue s (fileno cl) = Some (m # rest)" and "callback m = None"
  shows "nonblock_write c cl (Inr n) oc s =
           (None,
            if drop n (data m) = [] then
              (if rest = [] then
                 (register_read cl
                    (emit [EvSockSend (fileno cl) (data m) n, EvPopleft (fileno cl)] s))
                 \<lparr>send_queue := (send_queue s)(fileno cl := None)\<rparr>
               else
                 (emit [EvSockSend (fileno cl) (data m) n, EvPopleft (fileno cl)] s)
                 \<lparr>send_queue := (send_queue s)(fileno cl \<mapsto> rest)\<rparr>)
            else
              (emit [EvSockSend (fileno cl) (data m) n] s)
              \<lparr>send_queue := (send_queue s)(fileno cl \<mapsto> m\<lparr>data := drop n (data m)\<rparr> # rest)\<rparr>)"
  using assms
  by (simp add: nonblock_write_def lookup_queue_def write_top_def write_done_def Let_def emit_def
      register_read_def)

lemma write_run_invariant:
  assumes "plain_queue (fileno cl) s"
    and "s' = exec c (map (\<lambda>n. WriteReady cl (Inr n) oc) ns) s"
  shows "plain_queue (fileno cl) s' \<and>
         (\<exists>es. trace s' = trace s @ es \<and>
               delivered (fileno cl) es @ pending (fileno cl) s' = pending (fileno cl) s)"
  using assms
proof (induction ns arbitrary: s)
  case Nil
  then show ?case by (simp add: exec_def)
next
  case (Cons n ns)
  let ?fd = "fileno cl"
  let ?s1 = "snd (nonblock_write c cl (Inr n) oc s)"
  have s': "s' = exec c (map (\<lambda>n. WriteReady cl (Inr n) oc) ns) ?s1"
    using Cons.prems(2) by (simp add: exec_def)
  have one: "plain_queue ?fd ?s1 \<and>
         (\<exists>es. trace ?s1 = trace s @ es \<and> delivered ?fd es @ pending ?fd ?s1 = pending ?fd s)"
  proof (cases "send_queue s ?fd")
    case None
    then have "?s1 = s\<lparr>send_queue := (send_queue s)(?fd \<mapsto> [])\<rparr>"
      using write_on_drained_queue [of s cl c "Inr n" oc] by simp
    with None show ?thesis by (simp add: plain_queue_def pending_def)
  next
    case (Some queue)
    show ?thesis
    proof (cases queue)
      case Nil
      with Some have "?s1 = s\<lparr>send_queue := (send_queue s)(?fd \<mapsto> [])\<rparr>"
        using write_on_drained_queue [of s cl c "Inr n" oc] by simp
      with Some Nil show ?thesis by (simp add: plain_queue_def pending_def)
    next
      case (Cons m rest)
      with Some Cons.prems(1) have m: "callback m = None" and rest: "list_all (\<lambda>m. callback m = None) rest"
        by (simp_all add: plain_queue_def)
      have q: "send_queue s ?fd = Some (m # rest)" using Some Cons by simp
      have split: "take n (data m) @ drop n (data m) = data m" by simp
      show ?thesis
        unfolding plain_write [OF q m]
        using q m rest split
        by (auto simp: plain_queue_def pending_def emit_def register_read_def
            simp del: append_take_drop_id)
    qed
  qed
  from one obtain es1 where 1: "plain_queue ?fd ?s1" "trace ?s1 = trace s @ es1"
    "delivered ?fd es1 @ pending ?fd ?s1 = pending ?fd s" by blast
  from Cons.IH [OF 1(1) s'] obtain es2 where 2: "plain_queue ?fd s'" "trace s' = trace ?s1 @ es2"
    "delivered ?fd es2 @ pending ?fd s' = pending ?fd ?s1" by blast
  have "trace s' = trace s @ (es1 @ es2)" using 1(2) 2(2) by simp
  moreover have "delivered ?fd (es1 @ es2) @ pending ?fd s' = pending ?fd s"
    using 1(3) 2(3) by simp
  ultimately show ?case using 2(1) by blast
qed

text \<open>Every write-readiness event at which the transport takes at least one byte of a
  non-empty message shortens the backlog, until nothing is left.\<close>

lemma write_progress:
  assumes "plain_queue (fileno cl) s" and "0 < n"
  shows "backlog (fileno cl) (snd (nonblock_write c cl (Inr n) oc s)) \<le> backlog (fileno cl) s - 1"
proof (cases "send_queue s (fileno cl)")
  case None
  then have "snd (nonblock_write c cl (Inr n) oc s) = s\<lparr>send_queue := (send_queue s)(fileno cl \<mapsto> [])\<rparr>"
    using write_on_drained_queue [of s cl c "Inr n" oc] by simp
  then show ?thesis by (simp add: backlog_def)
next
  case (Some queue)
  show ?thesis
  proof (cases queue)
    case Nil
    with Some have "snd (nonblock_write c cl (Inr n) oc s) = s\<lparr>send_queue := (send_queue s)(fileno cl \<mapsto> [])\<rparr>"
      using write_on_drained_queue [of s cl c "Inr n" oc] by simp
    then show ?thesis by (simp add: backlog_def)
  next
    case (Cons m rest)
    with Some assms(1) have m: "callback m = None" by (simp add: plain_queue_def)
    have q: "send_queue s (fileno cl) = Some (m # rest)" using Some Cons by simp
    have "drop n (data m) \<noteq> [] \<Longrightarrow> length (data m) - n < length (data m)"
      using assms(2) by (cases "data m") auto
    then show ?thesis
      unfolding plain_write [OF q m]
      using q by (auto simp: backlog_def emit_def register_read_def)
  qed
qed

lemma write_run_progress:
  assumes "plain_queue (fileno cl) s" and "\<forall>n \<in> set ns. 0 < n"
  shows "backlog (fileno cl) (exec c (map (\<lambda>n. WriteReady cl (Inr n) oc) ns) s)
           \<le> backlog (fileno cl) s - length ns"
  using assms
proof (induction ns arbitrary: s)
  case Nil
  then show ?case by (simp add: exec_def)
next
  case (Cons n ns)
  let ?s1 = "snd (nonblock_write c cl (Inr n) oc s)"
  have "?s1 = exec c (map (\<lambda>n. WriteReady cl (Inr n) oc) [n]) s" by (simp add: exec_def)
  from write_run_invariant [OF Cons.prems(1) this] have p1: "plain_queue (fileno cl) ?s1" by simp
  have 1: "backlog (fileno cl) ?s1 \<le> backlog (fileno cl) s - 1"
    using write_progress [OF Cons.prems(1)] Cons.prems(2) by simp
  have "backlog (fileno cl) (exec c (map (\<lambda>n. WriteReady cl (Inr n) oc) ns) ?s1)
           \<le> backlog (fileno cl) ?s1 - length ns"
    using Cons.IH [OF p1] Cons.prems(2) by simp
  moreover have "exec c (map (\<lambda>n. WriteReady cl (Inr n) oc) (n # ns)) s
      = exec c (map (\<lambda>n. WriteReady cl (Inr n) oc) ns) ?s1" by (simp add: exec_def)
  ultimately show ?case using 1 by simp
qed

lemma backlog_zero:
  "backlog fd s = 0 \<Longrightarrow> send_queue s fd = None \<or> send_queue s fd = Some []"
  by (auto simp: backlog_def split: option.splits)

text \<open>
  Claim C5. On a connection without pending output, after \<^verbatim>\<open>send(connection, A)\<close> and
  \<^verbatim>\<open>send(connection, B)\<close> and any number of write-readiness events, whatever number of
  bytes the transport takes at each: the bytes the transport has taken, followed by the
  bytes still queued, are \<open>A @ B\<close>, so what has been taken is a prefix of \<open>A @ B\<close> at every
  moment. When the transport takes at least one byte at each event, \<open>length A + length B + 2\<close>
  events are enough: the bytes taken are then exactly \<open>A @ B\<close> and the queue is drained.
  Each event on a queue with front message \<open>m\<close> makes one transport write, of the remaining
  bytes of \<open>m\<close>, and strips from \<open>m\<close> the prefix the transport took; it dequeues \<open>m\<close> when
  nothing of it remains, and with the last message removes the queue of the descriptor
  and demotes the connection to read interest.
\<close>

theorem send_fifo:
  assumes "send_queue s (fileno cl) = None \<or> send_queue s (fileno cl) = Some []"
    and "s' = exec c (map (\<lambda>n. WriteReady cl (Inr n) oc) ns) (send cl B None (send cl A None s))"
  shows "(\<exists>es. trace s' = trace s @ es \<and>
               delivered (fileno cl) es @ pending (fileno cl) s' = A @ B \<and>
               ((\<forall>n \<in> set ns. 0 < n) \<and> length A + length B + 2 \<le> length ns \<longrightarrow>
                  delivered (fileno cl) es = A @ B \<and>
                  (send_queue s' (fileno cl) = None \<or> send_queue s' (fileno cl) = Some []))) \<and>
         (\<forall>st m rest n. send_queue st (fileno cl) = Some (m # rest) \<and> callback m = None \<longrightarrow>
            nonblock_write c cl (Inr n) oc st =
              (None,
               if drop n (data m) = [] then
                 (if rest = [] then
                    (register_read cl
                       (emit [EvSockSend (fileno cl) (data m) n, EvPopleft (fileno cl)] st))
                    \<lparr>send_queue := (send_queue st)(fileno cl := None)\<rparr>
                  else
                    (emit [EvSockSend (fileno cl) (data m) n, EvPopleft (fileno cl)] st)
                    \<lparr>send_queue := (send_queue st)(fileno cl \<mapsto> rest)\<rparr>)
               else
                 (emit [EvSockSend (fileno cl) (data m) n] st)
                 \<lparr>send_queue := (send_queue st)(fileno cl \<mapsto> m\<lparr>data := drop n (data m)\<rparr> # rest)\<rparr>))"
proof -
  let ?fd = "fileno cl"
  let ?s0 = "send cl B None (send cl A None s)"
  have q0: "send_queue ?s0 ?fd = Some [\<lparr>data = A, callback = None\<rparr>, \<lparr>data = B, callback = None\<rparr>]"
    and t0: "trace ?s0 = trace s"
    using assms(1) by (auto simp: send_def lookup_queue_def register_write_def)
  have p0: "plain_queue ?fd ?s0" "pending ?fd ?s0 = A @ B"
    "backlog ?fd ?s0 = length A + length B + 2"
    using q0 by (simp_all add: plain_queue_def pending_def backlog_def)
  from write_run_invariant [OF p0(1) assms(2)] obtain es where
    es: "trace s' = trace ?s0 @ es" "delivered ?fd es @ pending ?fd s' = pending ?fd ?s0"
    by blast
  have drained: "delivered ?fd es = A @ B \<and>
                  (send_queue s' ?fd = None \<or> send_queue s' ?fd = Some [])"
    if "\<forall>n \<in> set ns. 0 < n" "length A + length B + 2 \<le> length ns"
  proof -
    from write_run_progress [OF p0(1) that(1), of c oc] that(2) p0(3) assms(2)
    have "backlog ?fd s' = 0" by simp
    then have e: "send_queue s' ?fd = None \<or> send_queue s' ?fd = Some []" by (rule backlog_zero)
    then have "pending ?fd s' = []" by (auto simp: pending_def)
    with es(2) p0(2) e show ?thesis by simp
  qed
  have run: "\<exists>es. trace s' = trace s @ es \<and>
               delivered ?fd es @ pending ?fd s' = A @ B \<and>
               ((\<forall>n \<in> set ns. 0 < n) \<and> length A + length B + 2 \<le> length ns \<longrightarrow>
                  delivered ?fd es = A @ B \<and>
                  (send_queue s' ?fd = None \<or> send_queue s' ?fd = Some []))"
    apply (rule exI [of _ es])
    using es t0 p0(2) drained apply simp
    done
  have one: "\<forall>st m rest n. send_queue st (fileno cl) = Some (m # rest) \<and> callback m = None \<longrightarrow>
            nonblock_write c cl (Inr n) oc st =
              (None,
               if drop n (data m) = [] then
                 (if rest = [] then
                    (register_read cl
                       (emit [EvSockSend (fileno cl) (data m) n, EvPopleft (fileno cl)] st))
                    \<lparr>send_queue := (send_queue st)(fileno cl := None)\<rparr>
                  else
                    (emit [EvSockSend (fileno cl) (data m) n, EvPopleft (fileno cl)] st)
                    \<lparr>send_queue := (send_queue st)(fileno cl \<mapsto> rest)\<rparr>)
               else
                 (emit [EvSockSend (fileno cl) (data m) n] st)
                 \<lparr>send_queue := (send_queue st)(fileno cl \<mapsto> m\<lparr>data := drop n (data m)\<rparr> # rest)\<rparr>)"
    using plain_write by blast
  show ?thesis by (intro conjI) (rule run one)+
qed

theorem send_fifo_witness:
  "delivered 4 (trace (exec Unorderable (map (\<lambda>n. WriteReady \<lparr>ident = 4, fileno = 4\<rparr> (Inr n) noop) [1, 3, 2, 1, 1])
      (send \<lparr>ident = 4, fileno = 4\<rparr> ''c'' None
         (send \<lparr>ident = 4, fileno = 4\<rparr> ''ab'' None (init_server plain_factory))))) = ''abc''
   \<and> send_queue (init_server plain_factory) 4 = None
   \<and> length ''ab'' + length ''c'' + 2 \<le> length [1, 3, 2, 1, 1 :: nat]"
proof -
  let ?cl = "\<lparr>ident = 4, fileno = 4\<rparr>"
  let ?s = "init_server plain_factory"
  let ?ns = "[1, 3, 2, 1, 1 :: nat]"
  let ?s' = "exec Unorderable (map (\<lambda>n. WriteReady ?cl (Inr n) noop) ?ns)
               (send ?cl ''c'' None (send ?cl ''ab'' None ?s))"
  have idle: "send_queue ?s (fileno ?cl) = None \<or> send_queue ?s (fileno ?cl) = Some []"
    by (simp add: init_server_def)
  have t: "trace ?s = []" by (simp add: init_server_def)
  have pos: "\<forall>n \<in> set ?ns. 0 < n" by simp
  have len: "length ''ab'' + length ''c'' + 2 \<le> length ?ns" by simp
  from send_fifo [OF idle refl, of Unorderable noop ?ns "''c''" "''ab''"]
  obtain es where "trace ?s' = trace ?s @ es"
    "(\<forall>n \<in> set ?ns. 0 < n) \<and> length ''ab'' + length ''c'' + 2 \<le> length ?ns \<longrightarrow>
       delivered (fileno ?cl) es = ''ab'' @ ''c''"
    by blast
  with pos len t have "delivered 4 (trace ?s') = ''abc''" by simp
  with idle len show ?thesis by (simp add: init_server_def)
qed

section \<open>The completion callback of a message\<close>



















section \<open>A read-readiness event\<close>




end
